theory Spec2Isabelle
  imports Main
begin

section \<open>Python library functions the script relies on\<close>

text \<open>
  The script \<^verbatim>\<open>scripts/poe_commands.py\<close> names releases \<^verbatim>\<open>v<N>\<close> and reads the
  number back with \<^verbatim>\<open>int(name[1:])\<close>. Python's \<^verbatim>\<open>int\<close> on a string skips leading and
  trailing white space (the C \<^verbatim>\<open>isspace\<close> characters), accepts one sign, and then wants
  decimal digits, with single underscores allowed between digits. Names are taken to be
  ASCII: a byte outside ASCII is no digit and no space here.
\<close>

definition c_isspace :: "char \<Rightarrow> bool" where
  "c_isspace c = (let n = (of_char c :: nat) in (9 \<le> n \<and> n \<le> 13) \<or> n = 32)"

definition is_digit :: "char \<Rightarrow> bool" where
  "is_digit c = (let n = (of_char c :: nat) in 48 \<le> n \<and> n \<le> 57)"

definition digit_val :: "char \<Rightarrow> int" where
  "digit_val c = int (of_char c) - 48"

fun after_digit :: "int \<Rightarrow> string \<Rightarrow> int option" where
  "after_digit acc [] = Some acc"
| "after_digit acc (c # cs) =
     (if is_digit c then after_digit (10 * acc + digit_val c) cs
      else if c = CHR ''_'' then
        (case cs of
           [] \<Rightarrow> None
         | d # ds \<Rightarrow> if is_digit d then after_digit (10 * acc + digit_val d) ds else None)
      else None)"

definition parse_number :: "string \<Rightarrow> int option" where
  "parse_number s =
     (case s of
        [] \<Rightarrow> None
      | c # cs \<Rightarrow> if is_digit c then after_digit (digit_val c) cs else None)"

definition strip_with :: "(char \<Rightarrow> bool) \<Rightarrow> string \<Rightarrow> string" where
  "strip_with P s = rev (dropWhile P (rev (dropWhile P s)))"

text \<open>\<^verbatim>\<open>int(s)\<close>: \<open>None\<close> stands for the \<^verbatim>\<open>ValueError\<close>.\<close>

definition py_int :: "string \<Rightarrow> int option" where
  "py_int s =
     (case strip_with c_isspace s of
        [] \<Rightarrow> None
      | c # cs \<Rightarrow>
          if c = CHR ''-'' then map_option uminus (parse_number cs)
          else if c = CHR ''+'' then parse_number cs
          else parse_number (c # cs))"

text \<open>\<^verbatim>\<open>s.startswith(p)\<close>.\<close>

definition startswith :: "string \<Rightarrow> string \<Rightarrow> bool" where
  "startswith s p = (take (length p) s = p)"

text \<open>\<^verbatim>\<open>str(n)\<close> for the integers that appear in f-strings.\<close>

definition digit_char :: "nat \<Rightarrow> char" where
  "digit_char d = char_of (48 + d)"

fun str_nat :: "nat \<Rightarrow> string" where
  "str_nat n = (if n < 10 then [digit_char n] else str_nat (n div 10) @ [digit_char (n mod 10)])"

declare str_nat.simps [simp del]

definition str_int :: "int \<Rightarrow> string" where
  "str_int i = (if i < 0 then CHR ''-'' # str_nat (nat (- i)) else str_nat (nat i))"

text \<open>\<^verbatim>\<open>max(xs, default=d)\<close>.\<close>

definition max_default :: "int \<Rightarrow> int list \<Rightarrow> int" where
  "max_default d xs = (case xs of [] \<Rightarrow> d | y # ys \<Rightarrow> fold max ys y)"


section \<open>The file system under the project root\<close>

text \<open>
  \<^verbatim>\<open>RELEASES_DIR\<close> is either missing or a directory with a listing of named entries;
  \<^verbatim>\<open>CURRENT_LINK = RELEASES_DIR / "current"\<close> is one of these entries. A path is either a
  direct child of \<^verbatim>\<open>RELEASES_DIR\<close>, or an absolute, already normalised path that lies
  outside the releases tree. A symbolic link stores the path it points to. Paths into the
  inside of a release directory, and failures of the operating system itself (permissions,
  a full disk), are not part of the model; \<^verbatim>\<open>RELEASES_DIR\<close> is taken to contain no symbolic
  link in its own name, so that \<^verbatim>\<open>RELEASES_DIR / n\<close> is a resolved path whenever the entry
  \<open>n\<close> is not a link.
\<close>

datatype path = InReleases string | Outside string

datatype node = Dir | File | Link path

record fs =
  releases :: "(string \<times> node) list option"
  outside :: "string \<Rightarrow> node option"

definition CURRENT_LINK :: path where
  "CURRENT_LINK = InReleases ''current''"

text \<open>\<^verbatim>\<open>Path.name\<close>: the last component.\<close>

fun path_name :: "path \<Rightarrow> string" where
  "path_name (InReleases n) = n"
| "path_name (Outside q) = rev (takeWhile (\<lambda>c. c \<noteq> CHR ''/'') (rev q))"

text \<open>\<^verbatim>\<open>lstat\<close>: the node at a path, links not followed.\<close>

fun lookup :: "fs \<Rightarrow> path \<Rightarrow> node option" where
  "lookup f (InReleases n) = (case releases f of None \<Rightarrow> None | Some es \<Rightarrow> map_of es n)"
| "lookup f (Outside q) = outside f q"

text \<open>
  \<^verbatim>\<open>stat\<close>: the path and node reached by following links. The kernel gives up with
  \<^verbatim>\<open>ELOOP\<close> after \<open>MAXSYMLINKS\<close> links, and \<^verbatim>\<open>Path.exists\<close> reads that as "does not exist".
\<close>

definition MAXSYMLINKS :: nat where
  "MAXSYMLINKS = 40"

fun follow :: "nat \<Rightarrow> fs \<Rightarrow> path \<Rightarrow> (path \<times> node) option" where
  "follow 0 f p =
     (case lookup f p of
        None \<Rightarrow> None
      | Some (Link t) \<Rightarrow> None
      | Some nd \<Rightarrow> Some (p, nd))"
| "follow (Suc k) f p =
     (case lookup f p of
        None \<Rightarrow> None
      | Some (Link t) \<Rightarrow> follow k f t
      | Some nd \<Rightarrow> Some (p, nd))"

definition path_exists :: "fs \<Rightarrow> path \<Rightarrow> bool" where
  "path_exists f p = (follow MAXSYMLINKS f p \<noteq> None)"

definition is_symlink :: "fs \<Rightarrow> path \<Rightarrow> bool" where
  "is_symlink f p = (case lookup f p of Some (Link t) \<Rightarrow> True | _ \<Rightarrow> False)"

definition is_dir :: "fs \<Rightarrow> path \<Rightarrow> bool" where
  "is_dir f p = (case follow MAXSYMLINKS f p of Some (q, Dir) \<Rightarrow> True | _ \<Rightarrow> False)"

text \<open>
  \<^verbatim>\<open>Path.resolve()\<close>. The script calls it only on a path that exists; for a path that
  does not resolve the model hands the path back.
\<close>

definition resolve :: "fs \<Rightarrow> path \<Rightarrow> path" where
  "resolve f p = (case follow MAXSYMLINKS f p of Some (q, nd) \<Rightarrow> q | None \<Rightarrow> p)"

text \<open>
  \<^verbatim>\<open>RELEASES_DIR.iterdir()\<close>, in the order of the listing. An item is given by its name
  \<open>n\<close>; the path of the item is \<open>InReleases n\<close>.
\<close>

definition iterdir :: "fs \<Rightarrow> string list" where
  "iterdir f = (case releases f of None \<Rightarrow> [] | Some es \<Rightarrow> map fst es)"


section \<open>The version registry\<close>

definition get_current_release :: "fs \<Rightarrow> path option" where
  "get_current_release f =
     (if path_exists f CURRENT_LINK \<and> is_symlink f CURRENT_LINK
      then Some (resolve f CURRENT_LINK) else None)"

text \<open>
  The body of the loops over \<^verbatim>\<open>iterdir()\<close> in \<^verbatim>\<open>get_next_version\<close> and
  \<^verbatim>\<open>releases_cleanup\<close>: a directory whose name starts with \<^verbatim>\<open>v\<close> and whose rest parses.
\<close>

definition release_version :: "fs \<Rightarrow> string \<Rightarrow> int option" where
  "release_version f n =
     (if is_dir f (InReleases n) \<and> startswith n ''v'' then py_int (drop 1 n) else None)"

definition get_next_version :: "fs \<Rightarrow> int" where
  "get_next_version f =
     (if releases f = None then 1
      else max_default 0 (List.map_filter (release_version f) (iterdir f)) + 1)"

definition get_current_version :: "fs \<Rightarrow> int option" where
  "get_current_version f =
     (case get_current_release f of
        None \<Rightarrow> None
      | Some current \<Rightarrow>
          if startswith (path_name current) ''v'' then py_int (drop 1 (path_name current))
          else None)"


section \<open>Mutating the releases directory\<close>

text \<open>
  What can go wrong in the script: the exceptions of the file-system calls, the
  \<^verbatim>\<open>CalledProcessError\<close> of \<^verbatim>\<open>subprocess.run(check=True)\<close>, the \<^verbatim>\<open>ValueError\<close> of \<^verbatim>\<open>int\<close>, and
  \<^verbatim>\<open>sys.exit(n)\<close>.
\<close>

datatype exc =
    CalledProcessError
  | FileExistsError
  | FileNotFoundError
  | IsADirectoryError
  | NotADirectoryError
  | OSError
  | PermissionError
  | UnicodeDecodeError
  | ValueError
  | SystemExit int

definition remove_entry :: "string \<Rightarrow> fs \<Rightarrow> fs" where
  "remove_entry n f =
     f\<lparr>releases := map_option (filter (\<lambda>(m, nd). m \<noteq> n)) (releases f)\<rparr>"

definition add_entry :: "string \<Rightarrow> node \<Rightarrow> fs \<Rightarrow> fs" where
  "add_entry n nd f = f\<lparr>releases := map_option (\<lambda>es. es @ [(n, nd)]) (releases f)\<rparr>"

text \<open>\<^verbatim>\<open>(RELEASES_DIR / n).unlink()\<close>.\<close>

definition unlink :: "string \<Rightarrow> fs \<Rightarrow> exc + fs" where
  "unlink n f =
     (case lookup f (InReleases n) of
        None \<Rightarrow> Inl FileNotFoundError
      | Some Dir \<Rightarrow> Inl IsADirectoryError
      | Some nd \<Rightarrow> Inr (remove_entry n f))"

text \<open>\<^verbatim>\<open>(RELEASES_DIR / n).symlink_to(target)\<close>.\<close>

definition symlink_to :: "string \<Rightarrow> path \<Rightarrow> fs \<Rightarrow> exc + fs" where
  "symlink_to n target f =
     (if releases f = None then Inl FileNotFoundError
      else if lookup f (InReleases n) \<noteq> None then Inl FileExistsError
      else Inr (add_entry n (Link target) f))"

text \<open>\<^verbatim>\<open>RELEASES_DIR.mkdir(parents=True, exist_ok=True)\<close>.\<close>

definition mkdir_releases :: "fs \<Rightarrow> fs" where
  "mkdir_releases f = (if releases f = None then f\<lparr>releases := Some []\<rparr> else f)"

text \<open>\<^verbatim>\<open>(RELEASES_DIR / n).mkdir()\<close>.\<close>

definition mkdir :: "string \<Rightarrow> fs \<Rightarrow> exc + fs" where
  "mkdir n f =
     (if releases f = None then Inl FileNotFoundError
      else if lookup f (InReleases n) \<noteq> None then Inl FileExistsError
      else Inr (add_entry n Dir f))"

text \<open>
  \<^verbatim>\<open>shutil.rmtree(RELEASES_DIR / n)\<close>: it refuses a symbolic link, also one that points to
  a directory.
\<close>

definition rmtree :: "string \<Rightarrow> fs \<Rightarrow> exc + fs" where
  "rmtree n f =
     (case lookup f (InReleases n) of
        None \<Rightarrow> Inl FileNotFoundError
      | Some (Link t) \<Rightarrow> Inl OSError
      | Some File \<Rightarrow> Inl NotADirectoryError
      | Some Dir \<Rightarrow> Inr (remove_entry n f))"

text \<open>
  A sequence of file-system calls, run one after the other until one raises. The result
  lists every state of the file system that existed on the way (the first is the state
  before the first call), which is what another process can read in between.
\<close>

fun run_calls :: "(fs \<Rightarrow> exc + fs) list \<Rightarrow> fs \<Rightarrow> fs list \<times> exc option" where
  "run_calls [] f = ([f], None)"
| "run_calls (c # cs) f =
     (case c f of
        Inl e \<Rightarrow> ([f], Some e)
      | Inr f' \<Rightarrow> (case run_calls cs f' of (tr, r) \<Rightarrow> (f # tr, r)))"

text \<open>
  Step 7 of \<^verbatim>\<open>deploy\<close>:
  \<^verbatim>\<open>if CURRENT_LINK.exists() or CURRENT_LINK.is_symlink(): CURRENT_LINK.unlink()\<close>, then
  \<^verbatim>\<open>CURRENT_LINK.symlink_to(release_dir)\<close>.
\<close>

definition switch_calls :: "fs \<Rightarrow> path \<Rightarrow> (fs \<Rightarrow> exc + fs) list" where
  "switch_calls f target =
     (if path_exists f CURRENT_LINK \<or> is_symlink f CURRENT_LINK then [unlink ''current'']
      else []) @ [symlink_to ''current'' target]"

text \<open>
  The rollback of \<^verbatim>\<open>deploy\<close> and the command \<^verbatim>\<open>rollback\<close>:
  \<^verbatim>\<open>CURRENT_LINK.unlink()\<close>, then \<^verbatim>\<open>CURRENT_LINK.symlink_to(previous)\<close>.
\<close>

definition repoint_calls :: "path \<Rightarrow> (fs \<Rightarrow> exc + fs) list" where
  "repoint_calls target = [unlink ''current'', symlink_to ''current'' target]"

text \<open>What a reader of \<^verbatim>\<open>CURRENT_LINK\<close> gets in each state a sequence of calls goes through.\<close>

definition observations :: "fs list \<times> exc option \<Rightarrow> path option list" where
  "observations r = map get_current_release (fst r)"


section \<open>The state of a run, the outside world, and logging\<close>

text \<open>
  External commands are started through \<^verbatim>\<open>run_cmd\<close>, one shell line each. Their effect
  inside a release directory is not looked at; they are taken not to touch the listing of
  \<^verbatim>\<open>RELEASES_DIR\<close>.
\<close>

datatype cmd =
    GitArchive string
  | PipInstall string
  | ManageMigrate string
  | ManageCollectstatic string
  | SystemctlReload string
  | SystemctlRestart string
  | CurlWeb
  | CurlApi
  | PgDump string string string string string

text \<open>
  The programs of a shell line, in the order of its pipeline:
  \<^verbatim>\<open>git archive HEAD | tar -x -C {release_dir}\<close> and
  \<^verbatim>\<open>pg_dump -h .. -p .. -U .. {db_name} | gzip > {backup_file}\<close> are pipelines of two, every
  other line is a single program (with its redirection).
\<close>

datatype program = Git | Tar | Pip | Python | Sudo | Curl | Pg_dump | Gzip

fun pipeline :: "cmd \<Rightarrow> program list" where
  "pipeline (GitArchive release) = [Git, Tar]"
| "pipeline (PipInstall release) = [Pip]"
| "pipeline (ManageMigrate release) = [Python]"
| "pipeline (ManageCollectstatic release) = [Python]"
| "pipeline (SystemctlReload service) = [Sudo]"
| "pipeline (SystemctlRestart service) = [Sudo]"
| "pipeline CurlWeb = [Curl]"
| "pipeline CurlApi = [Curl]"
| "pipeline (PgDump host port user db_name file) = [Pg_dump, Gzip]"

text \<open>
  The working directory of a command: \<^verbatim>\<open>PROJECT_ROOT\<close> (the default of \<^verbatim>\<open>run_cmd\<close>), a
  release directory, or \<^verbatim>\<open>web\<close> inside a release directory; and what is found there when
  the command is started.
\<close>

datatype cwd = ProjectRoot | ReleaseDir string | ReleaseWeb string

datatype cwd_status = CwdDir | CwdMissing | CwdNotDir

text \<open>
  A file that is only read. \<^verbatim>\<open>exists()\<close> says that it is missing, or raises (a directory
  on the way that cannot be searched), or says that it is there; then it has some lines
  that can be read and, when the reader goes on after them, possibly an exception
  (\<^verbatim>\<open>open\<close> itself failing is no lines and an exception).
\<close>

datatype file_content = NoFile | NoAccess exc | Content "string list" "exc option"

datatype level = INFO | OK | WARN | ERROR | STEP nat nat | PRINT

record state =
  fsys :: fs
  backups_dir :: bool
  environ :: "string \<Rightarrow> string option"
  cmds :: "cmd list"
  log :: "(level \<times> string) list"

text \<open>
  What the run cannot decide by itself: the exit status of each program of a command line
  (it may depend on all the lines run before), what is at \<^verbatim>\<open>web\<close> inside a release
  directory after the lines run so far, what \<^verbatim>\<open>BACKUPS_DIR.mkdir(parents=True,
  exist_ok=True)\<close> raises, if anything, the content of a file that is only read, the result
  of \<^verbatim>\<open>re.match\<close> on the database URL (the five groups), and the time stamp.
\<close>

record world =
  exit_status :: "cmd list \<Rightarrow> cmd \<Rightarrow> program \<Rightarrow> int"
  web_dir :: "cmd list \<Rightarrow> string \<Rightarrow> cwd_status"
  backups_mkdir :: "exc option"
  read_file :: "string \<Rightarrow> file_content"
  match_url :: "string \<Rightarrow> (string \<times> string \<times> string \<times> string \<times> string) option"
  timestamp :: string

text \<open>
  \<^verbatim>\<open>result.returncode\<close> of a line run with \<^verbatim>\<open>shell=True\<close>: \<^verbatim>\<open>sh\<close> gives the status of the
  last program of a pipeline, whatever the programs before it did.
\<close>

definition returncode :: "world \<Rightarrow> cmd list \<Rightarrow> cmd \<Rightarrow> int" where
  "returncode w h c = exit_status w h c (last (pipeline c))"

text \<open>
  What \<^verbatim>\<open>subprocess.run(cwd=...)\<close> finds. \<^verbatim>\<open>PROJECT_ROOT\<close> is there whenever \<^verbatim>\<open>deploy\<close> or
  \<^verbatim>\<open>rollback\<close> run a command in it: \<^verbatim>\<open>db_backup\<close> has made \<^verbatim>\<open>PROJECT_ROOT/shared/backups\<close>
  before its dump, and every other command runs when \<^verbatim>\<open>PROJECT_ROOT/releases\<close> exists. A
  release directory is looked up in the file system, and \<^verbatim>\<open>web\<close> inside it is the world's.
\<close>

fun stat_cwd :: "world \<Rightarrow> fs \<Rightarrow> cmd list \<Rightarrow> cwd \<Rightarrow> cwd_status" where
  "stat_cwd w f h ProjectRoot = CwdDir"
| "stat_cwd w f h (ReleaseDir n) =
     (case follow MAXSYMLINKS f (InReleases n) of
        None \<Rightarrow> CwdMissing
      | Some (q, Dir) \<Rightarrow> CwdDir
      | Some (q, nd) \<Rightarrow> CwdNotDir)"
| "stat_cwd w f h (ReleaseWeb n) = web_dir w h n"

type_synonym 'a run = "state \<Rightarrow> (exc + 'a) \<times> state"

definition ret :: "'a \<Rightarrow> 'a run" where
  "ret x s = (Inr x, s)"

definition raise :: "exc \<Rightarrow> 'a run" where
  "raise e s = (Inl e, s)"

definition and_then :: "'a run \<Rightarrow> ('a \<Rightarrow> 'b run) \<Rightarrow> 'b run" where
  "and_then m k s = (case m s of (Inl e, s') \<Rightarrow> (Inl e, s') | (Inr x, s') \<Rightarrow> k x s')"

text \<open>
  The same sequencing with the case distinction written as equations on the result of the
  first command; \<open>and_then m k s = continue_with k (m s)\<close> is shown below and used when
  a run is evaluated.
\<close>

fun continue_with :: "('a \<Rightarrow> 'b run) \<Rightarrow> (exc + 'a) \<times> state \<Rightarrow> (exc + 'b) \<times> state" where
  "continue_with k (Inl e, s) = (Inl e, s)"
| "continue_with k (Inr x, s) = k x s"

definition fs_call :: "(fs \<Rightarrow> exc + fs) \<Rightarrow> unit run" where
  "fs_call c s = (case c (fsys s) of Inl e \<Rightarrow> (Inl e, s) | Inr f \<Rightarrow> (Inr (), s\<lparr>fsys := f\<rparr>))"

text \<open>
  A sequence of file-system calls inside a run: the file system is left in the last
  state that was reached, also when a call raises.
\<close>

definition fs_calls :: "(fs \<Rightarrow> exc + fs) list \<Rightarrow> unit run" where
  "fs_calls cs s =
     (case run_calls cs (fsys s) of
        (tr, None) \<Rightarrow> (Inr (), s\<lparr>fsys := last tr\<rparr>)
      | (tr, Some e) \<Rightarrow> (Inl e, s\<lparr>fsys := last tr\<rparr>))"

definition emit :: "level \<Rightarrow> string \<Rightarrow> unit run" where
  "emit l msg s = (Inr (), s\<lparr>log := log s @ [(l, msg)]\<rparr>)"

definition log_info :: "string \<Rightarrow> unit run" where
  "log_info msg = emit INFO msg"

definition log_success :: "string \<Rightarrow> unit run" where
  "log_success msg = emit OK msg"

definition log_warning :: "string \<Rightarrow> unit run" where
  "log_warning msg = emit WARN msg"

definition log_error :: "string \<Rightarrow> unit run" where
  "log_error msg = emit ERROR msg"

definition log_step :: "nat \<Rightarrow> nat \<Rightarrow> string \<Rightarrow> unit run" where
  "log_step step total_steps msg = emit (STEP step total_steps) msg"

text \<open>\<^verbatim>\<open>print\<close>, without the colour codes.\<close>

definition print :: "string \<Rightarrow> unit run" where
  "print msg = emit PRINT msg"

text \<open>
  The exit status of the process: 0 when the command returns, the argument of
  \<^verbatim>\<open>sys.exit\<close>, and 1 when the interpreter ends on an exception nobody caught.
\<close>

fun exit_code :: "exc + 'a \<Rightarrow> int" where
  "exit_code (Inr x) = 0"
| "exit_code (Inl (SystemExit n)) = n"
| "exit_code (Inl e) = 1"

text \<open>
  \<^verbatim>\<open>run_cmd(cmd, check, cwd=...)\<close>: \<^verbatim>\<open>subprocess.run\<close> raises before anything is started
  when the working directory is missing or no directory; with \<^verbatim>\<open>check=True\<close> it raises
  \<^verbatim>\<open>CalledProcessError\<close> after a line that returned a non-zero code.
\<close>

definition run_cmd :: "world \<Rightarrow> cmd \<Rightarrow> bool \<Rightarrow> cwd \<Rightarrow> int run" where
  "run_cmd w c check d s =
     (case stat_cwd w (fsys s) (cmds s) d of
        CwdMissing \<Rightarrow> (Inl FileNotFoundError, s)
      | CwdNotDir \<Rightarrow> (Inl NotADirectoryError, s)
      | CwdDir \<Rightarrow>
          (let rc = returncode w (cmds s) c;
               s' = s\<lparr>cmds := cmds s @ [c]\<rparr>
           in if check \<and> rc \<noteq> 0 then (Inl CalledProcessError, s') else (Inr rc, s')))"

text \<open>A \<^verbatim>\<open>for\<close> loop whose body has no result.\<close>

fun for_each :: "('a \<Rightarrow> unit run) \<Rightarrow> 'a list \<Rightarrow> unit run" where
  "for_each body [] s = (Inr (), s)"
| "for_each body (x # xs) s =
     (case body x s of (Inl e, s') \<Rightarrow> (Inl e, s') | (Inr u, s') \<Rightarrow> for_each body xs s')"


section \<open>Configuration\<close>

definition PROJECT_NAME :: string where
  "PROJECT_NAME = ''myproject''"

definition PROJECT_ROOT :: string where
  "PROJECT_ROOT = ''/opt/ayna/'' @ PROJECT_NAME"

definition SHARED_DIR :: string where
  "SHARED_DIR = PROJECT_ROOT @ ''/shared''"

definition BACKUPS_DIR :: string where
  "BACKUPS_DIR = SHARED_DIR @ ''/backups''"

record env_config =
  django_settings :: string
  env_file :: string
  services :: "string list"

definition ENVIRONMENTS :: "(string \<times> env_config) list" where
  "ENVIRONMENTS =
     [(''dev'',
        \<lparr>django_settings = ''config.settings.development'', env_file = ''.env.dev'',
         services = [PROJECT_NAME @ ''-web'', PROJECT_NAME @ ''-api'']\<rparr>),
      (''staging'',
        \<lparr>django_settings = ''config.settings.staging'', env_file = ''.env.staging'',
         services = [PROJECT_NAME @ ''-web'', PROJECT_NAME @ ''-api'',
                     PROJECT_NAME @ ''-celery'', PROJECT_NAME @ ''-beat'']\<rparr>),
      (''production'',
        \<lparr>django_settings = ''config.settings.production'', env_file = ''.env.production'',
         services = [PROJECT_NAME @ ''-web'', PROJECT_NAME @ ''-api'',
                     PROJECT_NAME @ ''-celery'', PROJECT_NAME @ ''-beat'']\<rparr>)]"

definition SERVICES :: "(string \<times> string) list" where
  "SERVICES =
     [(''web'', PROJECT_NAME @ ''-web''), (''api'', PROJECT_NAME @ ''-api''),
      (''celery'', PROJECT_NAME @ ''-celery''), (''beat'', PROJECT_NAME @ ''-beat'')]"

text \<open>\<^verbatim>\<open>sep.join(xs)\<close>.\<close>

fun join :: "string \<Rightarrow> string list \<Rightarrow> string" where
  "join sep [] = []"
| "join sep [x] = x"
| "join sep (x # y # ys) = x @ sep @ join sep (y # ys)"

definition get_env_config :: "string \<Rightarrow> env_config run" where
  "get_env_config env =
     (case map_of ENVIRONMENTS env of
        None \<Rightarrow>
          and_then
            (log_error (''Unknown environment: '' @ env @ ''. Valid: ''
                        @ join '', '' (map fst ENVIRONMENTS)))
            (\<lambda>u. raise (SystemExit 1))
      | Some config \<Rightarrow> ret config)"


section \<open>Services\<close>

definition reload_service :: "world \<Rightarrow> string \<times> string \<Rightarrow> unit run" where
  "reload_service w item =
     (case item of (name, service) \<Rightarrow>
        and_then (run_cmd w (SystemctlReload service) False ProjectRoot) (\<lambda>r1.
        and_then (if r1 \<noteq> 0 then run_cmd w (SystemctlRestart service) False ProjectRoot
                  else ret r1) (\<lambda>r.
        if r = 0 then log_success (''Reloaded '' @ name)
        else log_warning (''Failed to reload '' @ name))))"

definition services_reload :: "world \<Rightarrow> unit run" where
  "services_reload w =
     and_then (log_info ''Reloading all services...'') (\<lambda>u.
     for_each (reload_service w) SERVICES)"


section \<open>Database backup\<close>

text \<open>The white space of \<^verbatim>\<open>str.strip()\<close>, on ASCII.\<close>

definition py_isspace :: "char \<Rightarrow> bool" where
  "py_isspace c = (let n = (of_char c :: nat) in (9 \<le> n \<and> n \<le> 13) \<or> (28 \<le> n \<and> n \<le> 32))"

text \<open>
  The loop over the lines of the environment file: the first line that starts with
  \<^verbatim>\<open>DATABASE_URL=\<close> gives \<^verbatim>\<open>line.split("=", 1)[1].strip().strip('"').strip("'")\<close> and
  ends the loop. When the lines that can be read are used up, the exception that follows
  them is raised.
\<close>

fun scan_lines :: "string list \<Rightarrow> exc option \<Rightarrow> exc + string option" where
  "scan_lines [] None = Inr None"
| "scan_lines [] (Some e) = Inl e"
| "scan_lines (line # rest) err =
     (if startswith line ''DATABASE_URL=''
      then Inr (Some (strip_with (\<lambda>c. c = CHR 0x27)
                       (strip_with (\<lambda>c. c = CHR 0x22)
                         (strip_with py_isspace
                           (drop 1 (dropWhile (\<lambda>c. c \<noteq> CHR ''='') line))))))
      else scan_lines rest err)"

text \<open>\<^verbatim>\<open>os.environ[k] = v\<close>: a value with a null character is refused.\<close>

definition setenv :: "string \<Rightarrow> string \<Rightarrow> unit run" where
  "setenv k v s =
     (if CHR 0x00 \<in> set v then (Inl ValueError, s)
      else (Inr (), s\<lparr>environ := (environ s)(k \<mapsto> v)\<rparr>))"

text \<open>
  The value of \<^verbatim>\<open>db_url\<close> when the loop is over, or the exception of the reading: the
  environment file is \<^verbatim>\<open>PROJECT_ROOT / ".env"\<close> if that exists, else the one of the
  environment in \<^verbatim>\<open>SHARED_DIR\<close>, and it is read only if it exists.
\<close>

fun read_database_url :: "file_content \<Rightarrow> exc + string option" where
  "read_database_url NoFile = Inr None"
| "read_database_url (NoAccess e) = Inl e"
| "read_database_url (Content lines err) = scan_lines lines err"

definition database_url :: "world \<Rightarrow> env_config \<Rightarrow> exc + string option" where
  "database_url w config =
     (case read_file w (PROJECT_ROOT @ ''/.env'') of
        NoFile \<Rightarrow> read_database_url (read_file w (SHARED_DIR @ ''/'' @ env_file config))
      | NoAccess e \<Rightarrow> Inl e
      | Content lines err \<Rightarrow> scan_lines lines err)"

definition backup_file :: "world \<Rightarrow> string \<Rightarrow> string" where
  "backup_file w env =
     BACKUPS_DIR @ ''/'' @ PROJECT_NAME @ ''_'' @ env @ ''_'' @ timestamp w @ ''.sql.gz''"

text \<open>\<^verbatim>\<open>BACKUPS_DIR.mkdir(parents=True, exist_ok=True)\<close>.\<close>

definition mkdir_backups :: "world \<Rightarrow> unit run" where
  "mkdir_backups w s =
     (case backups_mkdir w of
        Some e \<Rightarrow> (Inl e, s)
      | None \<Rightarrow> (Inr (), s\<lparr>backups_dir := True\<rparr>))"

text \<open>A result that does not touch the state.\<close>

definition lift :: "exc + 'a \<Rightarrow> 'a run" where
  "lift r s = (r, s)"

definition db_backup :: "world \<Rightarrow> string \<Rightarrow> unit run" where
  "db_backup w env =
     and_then (get_env_config env) (\<lambda>config.
     and_then (mkdir_backups w) (\<lambda>u.
     and_then (lift (database_url w config)) (\<lambda>db_url.
     case db_url of
       None \<Rightarrow> log_warning ''Could not find DATABASE_URL, skipping backup''
     | Some url \<Rightarrow>
         if url = [] then log_warning ''Could not find DATABASE_URL, skipping backup''
         else
           (case match_url w url of
              Some (user, password, host, port, db_name) \<Rightarrow>
                and_then (setenv ''PGPASSWORD'' password) (\<lambda>u.
                and_then (log_info (''Backing up database '' @ db_name @ ''...'')) (\<lambda>u.
                and_then (run_cmd w (PgDump host port user db_name (backup_file w env)) False
                            ProjectRoot) (\<lambda>rc.
                if rc = 0 then log_success (''Backup saved to '' @ backup_file w env)
                else log_warning ''Database backup failed'')))
            | None \<Rightarrow>
                log_warning (''Could not parse DATABASE_URL: '' @ take 20 url @ ''...'')))))"


section \<open>Releases cleanup\<close>

text \<open>The list \<^verbatim>\<open>releases\<close> of pairs \<^verbatim>\<open>(version, d)\<close>, before sorting.\<close>

definition releases_list :: "fs \<Rightarrow> (int \<times> string) list" where
  "releases_list f =
     List.map_filter (\<lambda>n. map_option (\<lambda>v. (v, n)) (release_version f n)) (iterdir f)"

text \<open>
  \<^verbatim>\<open>releases.sort(key=lambda x: x[0], reverse=True)\<close>: Python's sort is stable, also with
  \<^verbatim>\<open>reverse=True\<close>, and so is \<open>sort_key\<close>.
\<close>

definition sort_desc :: "(int \<times> string) list \<Rightarrow> (int \<times> string) list" where
  "sort_desc rel = sort_key (\<lambda>x. - fst x) rel"

text \<open>
  The versions put into the set \<^verbatim>\<open>to_keep\<close>:
  \<^verbatim>\<open>if i < keep or version == current\<close> over \<^verbatim>\<open>enumerate(releases)\<close>.
\<close>

definition to_keep :: "int \<Rightarrow> int option \<Rightarrow> (int \<times> string) list \<Rightarrow> int list" where
  "to_keep keep current rel =
     map (\<lambda>x. fst (snd x))
       (filter (\<lambda>x. int (fst x) < keep \<or> Some (fst (snd x)) = current) (enumerate 0 rel))"

fun remove_loop :: "int list \<Rightarrow> (int \<times> string) list \<Rightarrow> nat \<Rightarrow> nat run" where
  "remove_loop K [] removed s = (Inr removed, s)"
| "remove_loop K (x # rest) removed s =
     (if fst x \<in> set K then remove_loop K rest removed s
      else
        (case and_then (log_info (''Removing v'' @ str_int (fst x) @ ''...''))
                (\<lambda>u. fs_call (rmtree (snd x))) s of
           (Inl e, s') \<Rightarrow> (Inl e, s')
         | (Inr u, s') \<Rightarrow> remove_loop K rest (removed + 1) s'))"

text \<open>
  What a Python function hands back. \<^verbatim>\<open>releases_cleanup\<close> is declared \<^verbatim>\<open>-> None\<close> and has
  no \<^verbatim>\<open>return\<close> with a value: the count \<^verbatim>\<open>removed\<close> goes into the log message only.
\<close>

datatype pyval = PyNone | PyInt int

definition releases_cleanup :: "int \<Rightarrow> pyval run" where
  "releases_cleanup keep s =
     (if releases (fsys s) = None then (Inr PyNone, s)
      else
        let current = get_current_version (fsys s);
            rel = sort_desc (releases_list (fsys s));
            K = to_keep keep current rel
        in and_then (remove_loop K rel 0) (\<lambda>removed.
             if removed > 0 then
               and_then
                 (log_success (''Cleaned up '' @ str_nat removed @ '' old release(s). Kept ''
                               @ str_nat (length (remdups K)) @ '' release(s).''))
                 (\<lambda>u. ret PyNone)
             else ret PyNone) s)"


section \<open>Deployment\<close>

text \<open>\<^verbatim>\<open>str.upper()\<close>, on ASCII.\<close>

definition py_upper :: "string \<Rightarrow> string" where
  "py_upper s =
     map (\<lambda>c. if 97 \<le> (of_char c :: nat) \<and> (of_char c :: nat) \<le> 122
              then char_of ((of_char c :: nat) - 32) else c) s"

definition NL :: string where
  "NL = [CHR 0x0A]"

definition deploy_header :: "string \<Rightarrow> bool \<Rightarrow> unit run" where
  "deploy_header env skip_backup =
     and_then (print (NL @ replicate 60 CHR ''='')) (\<lambda>u.
     and_then (print (''  '' @ py_upper PROJECT_NAME @ '' Deployment - '' @ py_upper env)) (\<lambda>u.
     and_then (if skip_backup then print ''  (skipping database backup)'' else ret ()) (\<lambda>u.
     print (replicate 60 CHR ''='' @ NL))))"

text \<open>Step 1: database backup, unless skipped. The result is the step counter.\<close>

definition deploy_backup :: "world \<Rightarrow> string \<Rightarrow> bool \<Rightarrow> nat \<Rightarrow> nat \<Rightarrow> nat run" where
  "deploy_backup w env skip_backup step total_steps =
     (if \<not> skip_backup then
        and_then (log_step (step + 1) total_steps ''Creating database backup...'') (\<lambda>u.
        and_then (db_backup w env) (\<lambda>u. ret (step + 1)))
      else ret step)"

text \<open>Step 2: create the release directory. The result is the counter, the version and
  the name of the directory.\<close>

definition deploy_create_release :: "nat \<Rightarrow> nat \<Rightarrow> (nat \<times> int \<times> string) run" where
  "deploy_create_release step total_steps s =
     (let version = get_next_version (fsys s);
          release = ''v'' @ str_int version
      in and_then (log_step (step + 1) total_steps (''Creating release v'' @ str_int version)) (\<lambda>u.
         and_then (fs_call (\<lambda>f. Inr (mkdir_releases f))) (\<lambda>u.
         and_then (fs_call (mkdir release)) (\<lambda>u.
         ret (step + 1, version, release)))) s)"

text \<open>
  Steps 3 to 6: the commands run with \<^verbatim>\<open>check=True\<close>, the first in \<^verbatim>\<open>PROJECT_ROOT\<close>, the
  second with \<^verbatim>\<open>cwd=release_dir\<close>, the last two with \<^verbatim>\<open>cwd=release_dir / "web"\<close>.
\<close>

definition deploy_provision :: "world \<Rightarrow> env_config \<Rightarrow> string \<Rightarrow> nat \<Rightarrow> nat \<Rightarrow> nat run" where
  "deploy_provision w config release step total_steps =
     and_then (log_step (step + 1) total_steps ''Copying code from git...'') (\<lambda>u.
     and_then (run_cmd w (GitArchive release) True ProjectRoot) (\<lambda>r.
     and_then (log_step (step + 2) total_steps ''Installing dependencies...'') (\<lambda>u.
     and_then (run_cmd w (PipInstall release) True (ReleaseDir release)) (\<lambda>r.
     and_then (log_step (step + 3) total_steps ''Running migrations...'') (\<lambda>u.
     and_then (setenv ''DJANGO_SETTINGS_MODULE'' (django_settings config)) (\<lambda>u.
     and_then (run_cmd w (ManageMigrate release) True (ReleaseWeb release)) (\<lambda>r.
     and_then (log_step (step + 4) total_steps ''Collecting static files...'') (\<lambda>u.
     and_then (run_cmd w (ManageCollectstatic release) True (ReleaseWeb release)) (\<lambda>r.
     ret (step + 4))))))))))"

text \<open>Step 7: switch the symlink. The result is the counter and \<^verbatim>\<open>previous_release\<close>.\<close>

definition deploy_switch :: "string \<Rightarrow> nat \<Rightarrow> nat \<Rightarrow> (nat \<times> path option) run" where
  "deploy_switch release step total_steps =
     and_then (log_step (step + 1) total_steps ''Switching to new release...'') (\<lambda>u s.
       let previous_release = get_current_release (fsys s)
       in and_then (fs_calls (switch_calls (fsys s) (InReleases release))) (\<lambda>u.
          ret (step + 1, previous_release)) s)"

text \<open>Step 9: the two probes (after \<^verbatim>\<open>time.sleep(3)\<close>).\<close>

definition deploy_health_check :: "world \<Rightarrow> nat \<Rightarrow> nat \<Rightarrow> (nat \<times> bool) run" where
  "deploy_health_check w step total_steps =
     and_then (log_step (step + 1) total_steps ''Running health check...'') (\<lambda>u.
     and_then (run_cmd w CurlWeb False ProjectRoot) (\<lambda>r1.
     and_then (run_cmd w CurlApi False ProjectRoot) (\<lambda>r2.
     ret (step + 1, r1 = 0 \<and> r2 = 0))))"

text \<open>Step 10, or the rollback.\<close>

definition deploy_finish :: "world \<Rightarrow> int \<Rightarrow> path option \<Rightarrow> bool \<Rightarrow> nat \<Rightarrow> unit run" where
  "deploy_finish w version previous_release healthy total_steps =
     (if healthy then
        and_then (log_step total_steps total_steps ''Cleaning up old releases...'') (\<lambda>u.
        and_then (releases_cleanup 10) (\<lambda>r.
        and_then (print (NL @ replicate 60 CHR ''='')) (\<lambda>u.
        and_then (print (''  Deployment successful! (v'' @ str_int version @ '')'')) (\<lambda>u.
        print (replicate 60 CHR ''='' @ NL)))))
      else
        and_then (log_error ''Health check failed! Rolling back...'') (\<lambda>u.
        and_then
          (case previous_release of
             Some previous \<Rightarrow>
               and_then (fs_calls (repoint_calls previous)) (\<lambda>u.
               and_then (services_reload w) (\<lambda>u.
               log_warning (''Rolled back to '' @ path_name previous)))
           | None \<Rightarrow> ret ())
          (\<lambda>u. raise (SystemExit 1))))"

text \<open>The state of the run when \<^verbatim>\<open>deploy\<close>, with a backup, calls \<^verbatim>\<open>db_backup\<close>.\<close>

definition at_backup :: "string \<Rightarrow> state \<Rightarrow> state" where
  "at_backup env s =
     snd (and_then (deploy_header env False)
            (\<lambda>u. log_step 1 10 ''Creating database backup...'') s)"

text \<open>
  Steps 1 and 2 of \<^verbatim>\<open>deploy\<close>: the configuration, the banner, the backup unless skipped,
  and the new release directory. The result holds the variables that the rest of the
  function reads: \<^verbatim>\<open>config\<close>, \<^verbatim>\<open>total_steps\<close>, \<^verbatim>\<open>step\<close>, \<^verbatim>\<open>version\<close> and the name of
  \<^verbatim>\<open>release_dir\<close>.
\<close>

definition deploy_prepare ::
  "world \<Rightarrow> string \<Rightarrow> bool \<Rightarrow> (env_config \<times> nat \<times> nat \<times> int \<times> string) run" where
  "deploy_prepare w env skip_backup =
     (let total_steps = (if skip_backup then 9 else 10)
      in and_then (get_env_config env) (\<lambda>config.
         and_then (deploy_header env skip_backup) (\<lambda>u.
         and_then (deploy_backup w env skip_backup 0 total_steps) (\<lambda>step.
         and_then (deploy_create_release step total_steps) (\<lambda>created.
         ret (config, total_steps, created))))))"

text \<open>
  Steps 7 to 9: the switch, the reload and the health check. The result is
  \<^verbatim>\<open>previous_release\<close> and the verdict.
\<close>

definition deploy_activate_and_check ::
  "world \<Rightarrow> string \<Rightarrow> nat \<Rightarrow> nat \<Rightarrow> (path option \<times> bool) run" where
  "deploy_activate_and_check w release step total_steps =
     and_then (deploy_switch release step total_steps) (\<lambda>switched.
     and_then (log_step (fst switched + 1) total_steps ''Reloading services...'') (\<lambda>u.
     and_then (services_reload w) (\<lambda>u.
     and_then (deploy_health_check w (fst switched + 1) total_steps) (\<lambda>checked.
     ret (snd switched, snd checked)))))"

text \<open>
  Steps 1 to 9, up to the line \<^verbatim>\<open>if web_healthy and api_healthy\<close>. The result holds
  \<^verbatim>\<open>total_steps\<close>, \<^verbatim>\<open>version\<close>, \<^verbatim>\<open>previous_release\<close>, and the verdict of the health check.
\<close>

definition deploy_until_check ::
  "world \<Rightarrow> string \<Rightarrow> bool \<Rightarrow> (nat \<times> int \<times> path option \<times> bool) run" where
  "deploy_until_check w env skip_backup =
     and_then (deploy_prepare w env skip_backup) (\<lambda>p.
       case p of (config, total_steps, step, version, release) \<Rightarrow>
         and_then (deploy_provision w config release step total_steps) (\<lambda>step.
         and_then (deploy_activate_and_check w release step total_steps) (\<lambda>r.
         ret (total_steps, version, r))))"

definition deploy :: "world \<Rightarrow> string \<Rightarrow> bool \<Rightarrow> unit run" where
  "deploy w env skip_backup =
     and_then (deploy_until_check w env skip_backup) (\<lambda>r.
       case r of (total_steps, version, previous_release, healthy) \<Rightarrow>
         deploy_finish w version previous_release healthy total_steps)"


section \<open>Rollback\<close>

text \<open>
  The list comprehension of \<^verbatim>\<open>rollback\<close>:
  \<^verbatim>\<open>d.is_dir() and d.name.startswith("v") and d != current\<close>.
\<close>

definition rollback_candidates :: "fs \<Rightarrow> path \<Rightarrow> string list" where
  "rollback_candidates f current =
     filter (\<lambda>n. is_dir f (InReleases n) \<and> startswith n ''v'' \<and> InReleases n \<noteq> current)
       (iterdir f)"

text \<open>
  \<^verbatim>\<open>sorted(..., key=lambda x: int(x.name[1:]), reverse=True)\<close>: the key of every item is
  computed first, and here \<^verbatim>\<open>int\<close> is not guarded by a \<^verbatim>\<open>try\<close>.
\<close>

fun sort_keys :: "string list \<Rightarrow> exc + (int \<times> string) list" where
  "sort_keys [] = Inr []"
| "sort_keys (n # ns) =
     (case py_int (drop 1 n) of
        None \<Rightarrow> Inl ValueError
      | Some k \<Rightarrow> (case sort_keys ns of Inl e \<Rightarrow> Inl e | Inr r \<Rightarrow> Inr ((k, n) # r)))"

definition sorted_candidates :: "string list \<Rightarrow> exc + string list" where
  "sorted_candidates ns =
     (case sort_keys ns of
        Inl e \<Rightarrow> Inl e
      | Inr r \<Rightarrow> Inr (map snd (sort_key (\<lambda>x. - fst x) r)))"

definition rollback :: "world \<Rightarrow> unit run" where
  "rollback w =
     and_then (log_info ''Rolling back to previous release...'') (\<lambda>u s.
       case get_current_release (fsys s) of
         None \<Rightarrow>
           and_then (log_error ''No current release found'') (\<lambda>u. raise (SystemExit 1)) s
       | Some current \<Rightarrow>
           (case sorted_candidates (rollback_candidates (fsys s) current) of
              Inl e \<Rightarrow> raise e s
            | Inr [] \<Rightarrow>
                and_then (log_error ''No previous release to roll back to'')
                  (\<lambda>u. raise (SystemExit 1)) s
            | Inr (previous # rest) \<Rightarrow>
                and_then (log_info (''Rolling back: '' @ path_name current @ '' -> '' @ previous)) (\<lambda>u.
                and_then (fs_calls (repoint_calls (InReleases previous))) (\<lambda>u.
                and_then (services_reload w) (\<lambda>u.
                log_success (''Rolled back to '' @ previous)))) s))"


section \<open>Scenarios\<close>

text \<open>A process that has just started, on a given file system.\<close>

definition start :: "fs \<Rightarrow> state" where
  "start f = \<lparr>fsys = f, backups_dir = False, environ = (\<lambda>k. None), cmds = [], log = []\<rparr>"

text \<open>
  A world without environment files, where every release has its \<^verbatim>\<open>web\<close> directory and the
  exit status of every program of a line is given by the line.
\<close>

definition world_of :: "(cmd \<Rightarrow> int) \<Rightarrow> world" where
  "world_of rc =
     \<lparr>exit_status = (\<lambda>h c p. rc c), web_dir = (\<lambda>h n. CwdDir), backups_mkdir = None,
      read_file = (\<lambda>p. NoFile), match_url = (\<lambda>u. None), timestamp = ''20260101_120000''\<rparr>"

text \<open>Releases \<^verbatim>\<open>v1\<close> to \<^verbatim>\<open>v10\<close>, with \<^verbatim>\<open>current -> v7\<close>.\<close>

definition fs_ten :: fs where
  "fs_ten =
     \<lparr>releases = Some
        [(''v1'', Dir), (''v2'', Dir), (''v3'', Dir), (''v4'', Dir), (''v5'', Dir),
         (''v6'', Dir), (''v7'', Dir), (''v8'', Dir), (''v9'', Dir), (''v10'', Dir),
         (''current'', Link (InReleases ''v7''))],
      outside = (\<lambda>q. None)\<rparr>"

text \<open>Nothing deployed yet: no releases directory.\<close>

definition fs_none :: fs where
  "fs_none = \<lparr>releases = None, outside = (\<lambda>q. None)\<rparr>"

text \<open>Two releases, \<^verbatim>\<open>current -> v2\<close>, and a directory \<^verbatim>\<open>vendor\<close> beside them.\<close>

definition fs_vendor :: fs where
  "fs_vendor =
     \<lparr>releases = Some
        [(''v1'', Dir), (''v2'', Dir), (''vendor'', Dir),
         (''current'', Link (InReleases ''v2''))],
      outside = (\<lambda>q. None)\<rparr>"

text \<open>One release, \<^verbatim>\<open>current -> v1\<close>.\<close>

definition fs_one :: fs where
  "fs_one =
     \<lparr>releases = Some [(''v1'', Dir), (''current'', Link (InReleases ''v1''))],
      outside = (\<lambda>q. None)\<rparr>"



text \<open>A world where the probe of the API fails and every other command succeeds.\<close>

definition world_api_down :: world where
  "world_api_down = world_of (\<lambda>c. if c = CurlApi then 7 else 0)"

text \<open>
  Worlds with an environment file for production that holds a database URL which parses.
  In the first the whole dump line fails (\<^verbatim>\<open>gzip\<close> cannot write its file). In the second
  \<^verbatim>\<open>pg_dump\<close> fails and \<^verbatim>\<open>gzip\<close> compresses what it was given.
\<close>

definition world_with_url :: "(cmd \<Rightarrow> program \<Rightarrow> int) \<Rightarrow> world" where
  "world_with_url st =
     \<lparr>exit_status = (\<lambda>h c p. st c p), web_dir = (\<lambda>h n. CwdDir), backups_mkdir = None,
      read_file =
        (\<lambda>p. if p = ''/opt/ayna/myproject/shared/.env.production''
              then Content [''DEBUG=0'' @ NL, ''DATABASE_URL=postgres://app:pw@db:5432/shop'' @ NL]
                     None
              else NoFile),
      match_url =
        (\<lambda>u. if u = ''postgres://app:pw@db:5432/shop''
              then Some (''app'', ''pw'', ''db'', ''5432'', ''shop'') else None),
      timestamp = ''20260101_120000''\<rparr>"

definition world_dump_line_fails :: world where
  "world_dump_line_fails = world_with_url (\<lambda>c p. if p = Gzip then 1 else 0)"

definition world_pg_dump_fails :: world where
  "world_pg_dump_fails = world_with_url (\<lambda>c p. if p = Pg_dump then 1 else 0)"

text \<open>
  A world where the archive of the code has no \<^verbatim>\<open>web\<close> directory, and every command that is
  started succeeds.
\<close>

definition world_no_web :: world where
  "world_no_web = (world_of (\<lambda>c. 0))\<lparr>web_dir := (\<lambda>h n. CwdMissing)\<rparr>"

text \<open>A world where the environment file for production is there and cannot be read.\<close>

definition world_env_unreadable :: world where
  "world_env_unreadable =
     (world_of (\<lambda>c. 0))
       \<lparr>read_file :=
          (\<lambda>p. if p = ''/opt/ayna/myproject/shared/.env.production''
                then Content [] (Some PermissionError) else NoFile)\<rparr>"


section \<open>The registry as the specification words it\<close>

text \<open>
  The versions the specification speaks of in \<^verbatim>\<open>nextVersion\<close>: the integers parsed from
  the names of the form \<^verbatim>\<open>v<integer>\<close> of the directories in the releases directory.
\<close>

definition spec_versions :: "fs \<Rightarrow> int set" where
  "spec_versions f =
     {k. \<exists>n rest. n \<in> set (iterdir f) \<and> is_dir f (InReleases n)
                  \<and> n = CHR ''v'' # rest \<and> py_int rest = Some k}"


text \<open>
  The provisioning pipeline as the specification words it: an ordered, fixed pipeline of
  named steps (snapshot source, install dependencies, run schema migrations, collect
  static assets), each of which reports success or failure. What a step reports is read
  off the code: it succeeds when its command can be started in its working directory and
  the command line returns 0. \<open>h\<close> is the list of the lines run before the first step.
\<close>

definition step_ok :: "world \<Rightarrow> fs \<Rightarrow> cmd list \<Rightarrow> cmd \<Rightarrow> cwd \<Rightarrow> bool" where
  "step_ok w f h c d = (stat_cwd w f h d = CwdDir \<and> returncode w h c = 0)"

definition provision_ok :: "world \<Rightarrow> fs \<Rightarrow> cmd list \<Rightarrow> string \<Rightarrow> bool" where
  "provision_ok w f h release =
     (step_ok w f h (GitArchive release) ProjectRoot
      \<and> step_ok w f (h @ [GitArchive release]) (PipInstall release) (ReleaseDir release)
      \<and> step_ok w f (h @ [GitArchive release, PipInstall release])
           (ManageMigrate release) (ReleaseWeb release)
      \<and> step_ok w f (h @ [GitArchive release, PipInstall release, ManageMigrate release])
           (ManageCollectstatic release) (ReleaseWeb release))"

text \<open>
  How a file system may differ after entries were deleted: nothing outside the releases
  directory has changed, and an entry is either as it was, or it was a directory with a
  name in \<open>P\<close> and is gone.
\<close>

definition only_removed :: "(string \<Rightarrow> bool) \<Rightarrow> fs \<Rightarrow> fs \<Rightarrow> bool" where
  "only_removed P f f' =
     (outside f' = outside f
      \<and> (\<forall>n. lookup f' (InReleases n) = lookup f (InReleases n)
              \<or> (P n \<and> lookup f (InReleases n) = Some Dir \<and> lookup f' (InReleases n) = None)))"


text \<open>
  Three ways to speak about every run of a command: what relates the state before to the
  state after, and which exception it cannot end on.
\<close>

definition steps_in :: "(state \<Rightarrow> state \<Rightarrow> bool) \<Rightarrow> 'a run \<Rightarrow> bool" where
  "steps_in R m = (\<forall>s. R s (snd (m s)))"

definition same_fs :: "state \<Rightarrow> state \<Rightarrow> bool" where
  "same_fs s s' = (fsys s' = fsys s)"

definition log_grows :: "state \<Rightarrow> state \<Rightarrow> bool" where
  "log_grows s s' = (\<exists>l. log s' = log s @ l)"

definition never_raises :: "exc \<Rightarrow> 'a run \<Rightarrow> bool" where
  "never_raises e m = (\<forall>s. fst (m s) \<noteq> Inl e)"


section \<open>Evaluating a run\<close>

lemma and_then_code [code]: "and_then m k s = continue_with k (m s)"
  by (cases "m s"; cases "fst (m s)") (simp_all add: and_then_def)


section \<open>Following links\<close>

lemma follow_lands:
  "follow k f p = Some (q, nd) \<Longrightarrow> lookup f q = Some nd \<and> (\<forall>t. nd \<noteq> Link t)"
proof (induction k arbitrary: p)
  case 0
  then show ?case by (auto split: option.splits node.splits)
next
  case (Suc k)
  then show ?case by (auto split: option.splits node.splits)
qed

lemma follow_absent: "lookup f p = None \<Longrightarrow> follow k f p = None"
  by (cases k) simp_all

lemma follow_nonlink:
  "lookup f p = Some nd \<Longrightarrow> (\<forall>t. nd \<noteq> Link t) \<Longrightarrow> follow k f p = Some (p, nd)"
  by (cases k; cases nd) simp_all

lemma follow_link: "lookup f p = Some (Link t) \<Longrightarrow> follow (Suc k) f p = follow k f t"
  by simp

lemma MAXSYMLINKS_Suc: "MAXSYMLINKS = Suc 39"
  by (simp add: MAXSYMLINKS_def)


lemma current_release_Some:
  assumes "get_current_release f = Some p"
  shows "\<exists>nd. follow MAXSYMLINKS f CURRENT_LINK = Some (p, nd)
              \<and> lookup f p = Some nd \<and> (\<forall>t. nd \<noteq> Link t)"
proof -
  from assms obtain q nd
    where fl: "follow MAXSYMLINKS f CURRENT_LINK = Some (q, nd)" and "p = q"
    by (auto simp: get_current_release_def path_exists_def resolve_def split: if_splits)
  with follow_lands[OF fl] show ?thesis by auto
qed


section \<open>The current release\<close>

text \<open>
  C9. \<^verbatim>\<open>get_current_release\<close> gives \<open>None\<close> exactly when the pointer is absent, when it
  is a symbolic link that does not lead to an existing target, or when the path exists
  without being a symbolic link. In every other case it gives the path reached by
  following the links, which names an existing node that is itself no link. The function
  has no branch that raises.
\<close>

theorem current_release_cases:
  "(get_current_release f = None \<longleftrightarrow>
      lookup f CURRENT_LINK = None
      \<or> (is_symlink f CURRENT_LINK \<and> \<not> path_exists f CURRENT_LINK)
      \<or> (path_exists f CURRENT_LINK \<and> \<not> is_symlink f CURRENT_LINK))
   \<and> (\<forall>p. get_current_release f = Some p \<longrightarrow>
          (\<exists>nd. follow MAXSYMLINKS f CURRENT_LINK = Some (p, nd)
                \<and> lookup f p = Some nd \<and> (\<forall>t. nd \<noteq> Link t)))"
proof -
  have absent: "lookup f CURRENT_LINK = None \<Longrightarrow> \<not> path_exists f CURRENT_LINK"
    by (simp add: path_exists_def follow_absent)
  have present: "\<not> path_exists f CURRENT_LINK \<Longrightarrow> \<not> is_symlink f CURRENT_LINK
      \<Longrightarrow> lookup f CURRENT_LINK = None"
    by (auto simp: path_exists_def is_symlink_def follow_nonlink
             split: option.splits node.splits)
  have a: "get_current_release f = None \<longleftrightarrow>
      lookup f CURRENT_LINK = None
      \<or> (is_symlink f CURRENT_LINK \<and> \<not> path_exists f CURRENT_LINK)
      \<or> (path_exists f CURRENT_LINK \<and> \<not> is_symlink f CURRENT_LINK)"
    using absent present
    by (cases "path_exists f CURRENT_LINK"; cases "is_symlink f CURRENT_LINK")
       (auto simp: get_current_release_def)
  have b: "\<exists>nd. follow MAXSYMLINKS f CURRENT_LINK = Some (p, nd)
                \<and> lookup f p = Some nd \<and> (\<forall>t. nd \<noteq> Link t)"
    if "get_current_release f = Some p" for p
    using that by (rule current_release_Some)
  from a b show ?thesis by blast
qed

theorem current_release_cases_witness:
  "get_current_release fs_ten = Some (InReleases ''v7'')
   \<and> lookup fs_ten (InReleases ''v7'') = Some Dir
   \<and> get_current_release fs_none = None \<and> lookup fs_none CURRENT_LINK = None"
proof -
  have a: "get_current_release fs_ten = Some (InReleases ''v7'')" by code_simp
  have b: "lookup fs_none CURRENT_LINK = None" by code_simp
  have c: "lookup fs_ten (InReleases ''v7'') = Some Dir" by code_simp
  from current_release_cases[of fs_ten] a current_release_cases[of fs_none] b c
  show ?thesis by blast
qed


section \<open>The next version\<close>

lemma startswith_v: "startswith n ''v'' \<longleftrightarrow> (\<exists>rest. n = CHR ''v'' # rest)"
  by (cases n) (auto simp: startswith_def)

lemma max_default_Max: "xs \<noteq> [] \<Longrightarrow> max_default d xs = Max (set xs)"
proof (cases xs)
  case Nil
  assume "xs \<noteq> []"
  with Nil show ?thesis by simp
next
  case (Cons y ys)
  have "fold max ys y = Max (set (y # ys))" by (simp only: Max.set_eq_fold)
  with Cons show ?thesis by (simp add: max_default_def)
qed

lemma set_map_filter_eq: "set (List.map_filter g xs) = {y. \<exists>x. x \<in> set xs \<and> g x = Some y}"
  by (induction xs) (auto simp: List.map_filter_simps split: option.splits)

lemma set_versions:
  "set (List.map_filter (release_version f) (iterdir f)) = spec_versions f"
  by (auto simp: set_map_filter_eq spec_versions_def release_version_def startswith_v
           split: if_splits)

lemma iterdir_absent: "releases f = None \<Longrightarrow> iterdir f = []"
  by (simp add: iterdir_def)

text \<open>
  C7. \<^verbatim>\<open>get_next_version\<close> is one more than the largest integer parsed from the names
  \<^verbatim>\<open>v<integer>\<close> of the directories in the releases directory; entries that are no
  directory, and names that do not parse, play no part. It is 1 when there is no such
  directory, in particular when the releases directory is missing. The function has no
  branch that raises.
\<close>

theorem next_version_spec:
  "get_next_version f = (if spec_versions f = {} then 1 else Max (spec_versions f) + 1)
   \<and> (releases f = None \<longrightarrow> get_next_version f = 1)"
proof -
  let ?vs = "List.map_filter (release_version f) (iterdir f)"
  have a: "get_next_version f = 1" if "releases f = None"
    using that by (simp add: get_next_version_def)
  have e: "spec_versions f = {}" if "releases f = None"
    using that by (simp add: spec_versions_def iterdir_absent)
  have d: "get_next_version f = max_default 0 ?vs + 1" if "releases f \<noteq> None"
    using that by (auto simp: get_next_version_def)
  have b: "get_next_version f = 1" if "releases f \<noteq> None" "spec_versions f = {}"
  proof -
    from that(2) have "?vs = []" using set_versions[of f] by (metis set_empty)
    with d[OF that(1)] show ?thesis by (simp add: max_default_def)
  qed
  have c: "get_next_version f = Max (spec_versions f) + 1"
    if "releases f \<noteq> None" "spec_versions f \<noteq> {}"
  proof -
    from that(2) have "?vs \<noteq> []" using set_versions[of f] by auto
    then have "max_default 0 ?vs = Max (spec_versions f)"
      by (simp add: max_default_Max set_versions)
    with d[OF that(1)] show ?thesis by simp
  qed
  show ?thesis
  proof (cases "releases f = None")
    case True
    with a e show ?thesis by simp
  next
    case False
    with b c show ?thesis by (cases "spec_versions f = {}") auto
  qed
qed

theorem next_version_spec_witness:
  "get_next_version fs_ten = 11 \<and> Max (spec_versions fs_ten) = 10
   \<and> get_next_version fs_none = 1"
proof -
  have a: "get_next_version fs_ten = 11" by code_simp
  have b: "releases fs_none = None" by code_simp
  have "''v10'' \<in> set (iterdir fs_ten) \<and> is_dir fs_ten (InReleases ''v10'')
        \<and> py_int ''10'' = Some 10"
    by code_simp
  then have "10 \<in> spec_versions fs_ten"
    by (auto simp: spec_versions_def)
  then have c: "spec_versions fs_ten \<noteq> {}" by blast
  from next_version_spec[of fs_ten] next_version_spec[of fs_none] a b c
  show ?thesis by auto
qed


section \<open>Entries of the releases directory\<close>

declare lookup.simps [simp del]

lemma map_of_filter_neq:
  "map_of (filter (\<lambda>(m, nd). m \<noteq> n) es) k = (if k = n then None else map_of es k)"
  by (induction es) auto

lemma lookup_remove_entry:
  "lookup (remove_entry n f) p = (if p = InReleases n then None else lookup f p)"
  by (cases p) (auto simp: lookup.simps remove_entry_def map_of_filter_neq split: option.splits)

lemma lookup_add_entry:
  "lookup f (InReleases n) = None \<Longrightarrow> releases f \<noteq> None \<Longrightarrow>
   lookup (add_entry n nd f) p = (if p = InReleases n then Some nd else lookup f p)"
  by (cases p) (auto simp: lookup.simps add_entry_def map_add_def split: option.splits)

lemma releases_remove_entry [simp]: "(releases (remove_entry n f) = None) = (releases f = None)"
  by (simp add: remove_entry_def)

lemma lookup_Some_releases: "lookup f (InReleases n) = Some nd \<Longrightarrow> releases f \<noteq> None"
  by (auto simp: lookup.simps split: option.splits)

lemma current_release_link:
  "get_current_release f = Some a \<Longrightarrow> \<exists>t. lookup f CURRENT_LINK = Some (Link t)"
  by (auto simp: get_current_release_def is_symlink_def split: if_splits option.splits node.splits)

lemma current_release_absent: "lookup f CURRENT_LINK = None \<Longrightarrow> get_current_release f = None"
  by (simp add: get_current_release_def path_exists_def follow_absent)

lemma current_release_points:
  assumes "lookup f CURRENT_LINK = Some (Link p)" "lookup f p = Some nd" "\<forall>t. nd \<noteq> Link t"
  shows "get_current_release f = Some p"
proof -
  have "follow (Suc 39) f CURRENT_LINK = follow 39 f p"
    using assms(1) by (rule follow_link)
  also have "\<dots> = Some (p, nd)"
    using assms(2,3) by (rule follow_nonlink)
  finally have "follow MAXSYMLINKS f CURRENT_LINK = Some (p, nd)"
    by (simp only: MAXSYMLINKS_Suc)
  with assms(1) show ?thesis
    by (simp add: get_current_release_def path_exists_def is_symlink_def resolve_def)
qed

text \<open>The two calls of a repoint, on a pointer that is a link, one after the other.\<close>

lemma repoint_run:
  assumes "lookup f CURRENT_LINK = Some (Link t)"
  shows "run_calls (repoint_calls target) f =
           ([f, remove_entry ''current'' f,
             add_entry ''current'' (Link target) (remove_entry ''current'' f)], None)"
proof -
  from assms have r: "releases f \<noteq> None"
    by (auto simp: CURRENT_LINK_def dest: lookup_Some_releases)
  from assms have u: "unlink ''current'' f = Inr (remove_entry ''current'' f)"
    by (simp add: unlink_def CURRENT_LINK_def)
  have "lookup (remove_entry ''current'' f) (InReleases ''current'') = None"
    by (simp add: lookup_remove_entry)
  with r have s: "symlink_to ''current'' target (remove_entry ''current'' f) =
      Inr (add_entry ''current'' (Link target) (remove_entry ''current'' f))"
    by (simp add: symlink_to_def)
  show ?thesis
    by (simp add: repoint_calls_def u s)
qed

lemma switch_calls_link:
  "lookup f CURRENT_LINK = Some (Link t) \<Longrightarrow> switch_calls f target = repoint_calls target"
  by (simp add: switch_calls_def repoint_calls_def is_symlink_def)

lemma repointed_lookup:
  assumes "lookup f CURRENT_LINK = Some (Link t)"
  shows "lookup (add_entry ''current'' (Link target) (remove_entry ''current'' f)) p =
           (if p = CURRENT_LINK then Some (Link target) else lookup f p)"
proof -
  from assms have r: "releases (remove_entry ''current'' f) \<noteq> None"
    by (auto simp: CURRENT_LINK_def dest: lookup_Some_releases)
  have "lookup (remove_entry ''current'' f) (InReleases ''current'') = None"
    by (simp add: lookup_remove_entry)
  from lookup_add_entry[OF this r] show ?thesis
    by (simp add: lookup_remove_entry CURRENT_LINK_def)
qed

section \<open>The pointer switch, step by step\<close>

text \<open>
  C1, as amended. The switch is two calls, \<^verbatim>\<open>unlink\<close> and then \<^verbatim>\<open>symlink_to\<close>. When the
  pointer leads to the release \<open>a\<close> and is switched to an existing directory \<open>b\<close>, a
  reader sees \<open>a\<close> before the first call, no pointer at all between the two calls, and
  \<open>b\<close> after the second; it never sees any other target. This holds for the switch of
  \<^verbatim>\<open>deploy\<close> and for the one of the rollbacks.
\<close>

theorem switch_observations:
  assumes "get_current_release f = Some a" and "lookup f (InReleases b) = Some Dir"
  shows "observations (run_calls (switch_calls f (InReleases b)) f) =
           [Some a, None, Some (InReleases b)]
         \<and> observations (run_calls (repoint_calls (InReleases b)) f) =
           [Some a, None, Some (InReleases b)]"
proof -
  from current_release_link[OF assms(1)] obtain t
    where l: "lookup f CURRENT_LINK = Some (Link t)" by blast
  with assms(2) have ne: "InReleases b \<noteq> CURRENT_LINK" by auto
  let ?f1 = "remove_entry ''current'' f"
  let ?f2 = "add_entry ''current'' (Link (InReleases b)) ?f1"
  have mid: "get_current_release ?f1 = None"
    by (rule current_release_absent) (simp add: lookup_remove_entry CURRENT_LINK_def)
  have "lookup ?f2 CURRENT_LINK = Some (Link (InReleases b))"
    and "lookup ?f2 (InReleases b) = Some Dir"
    using ne assms(2) by (simp_all add: repointed_lookup[OF l])
  then have fin: "get_current_release ?f2 = Some (InReleases b)"
    by (rule current_release_points) simp
  have "observations (run_calls (repoint_calls (InReleases b)) f) =
           [Some a, None, Some (InReleases b)]"
    by (simp add: observations_def repoint_run[OF l] assms(1) mid fin)
  then show ?thesis by (simp add: switch_calls_link[OF l])
qed

theorem switch_observations_witness:
  "get_current_release fs_ten = Some (InReleases ''v7'')
   \<and> lookup fs_ten (InReleases ''v9'') = Some Dir
   \<and> observations (run_calls (switch_calls fs_ten (InReleases ''v9'')) fs_ten) =
       [Some (InReleases ''v7''), None, Some (InReleases ''v9'')]"
proof -
  have a: "get_current_release fs_ten = Some (InReleases ''v7'')" by code_simp
  have b: "lookup fs_ten (InReleases ''v9'') = Some Dir" by code_simp
  from switch_observations[OF a b] a b show ?thesis by simp
qed


section \<open>Retention on the ten releases\<close>

text \<open>
  C2, as amended. With \<^verbatim>\<open>v1\<close> to \<^verbatim>\<open>v10\<close> on disk and \<^verbatim>\<open>current -> v7\<close>,
  \<^verbatim>\<open>releases_cleanup(keep=3)\<close> removes exactly \<^verbatim>\<open>v1\<close> to \<^verbatim>\<open>v6\<close>, leaves exactly \<^verbatim>\<open>v7\<close> to
  \<^verbatim>\<open>v10\<close> as release directories (and the pointer as it was), and counts 6 removals, which
  it writes into its last log message. The function itself hands back \<^verbatim>\<open>None\<close>.
\<close>

theorem cleanup_ten_keep_three:
  "fst (releases_cleanup 3 (start fs_ten)) = Inr PyNone
   \<and> releases (fsys (snd (releases_cleanup 3 (start fs_ten)))) =
       Some [(''v7'', Dir), (''v8'', Dir), (''v9'', Dir), (''v10'', Dir),
             (''current'', Link (InReleases ''v7''))]
   \<and> set (iterdir fs_ten) - set (iterdir (fsys (snd (releases_cleanup 3 (start fs_ten))))) =
       {''v1'', ''v2'', ''v3'', ''v4'', ''v5'', ''v6''}
   \<and> map snd (releases_list (fsys (snd (releases_cleanup 3 (start fs_ten))))) =
       [''v7'', ''v8'', ''v9'', ''v10'']
   \<and> log (snd (releases_cleanup 3 (start fs_ten))) =
       [(INFO, ''Removing v6...''), (INFO, ''Removing v5...''), (INFO, ''Removing v4...''),
        (INFO, ''Removing v3...''), (INFO, ''Removing v2...''), (INFO, ''Removing v1...''),
        (OK, ''Cleaned up 6 old release(s). Kept 4 release(s).'')]"
  by code_simp

text \<open>C2 as stated fails on the return value: it is not 6.\<close>

theorem cleanup_ten_returns_no_count:
  "fst (releases_cleanup 3 (start fs_ten)) \<noteq> Inr (PyInt 6)"
  by code_simp

section \<open>A reader between the two calls of a switch\<close>

text \<open>
  C1 as stated fails: switching the ten-release scenario from \<^verbatim>\<open>v7\<close> to \<^verbatim>\<open>v8\<close>, the
  state between \<^verbatim>\<open>unlink\<close> and \<^verbatim>\<open>symlink_to\<close> has no pointer.
\<close>

theorem switch_not_atomic:
  "observations (run_calls (switch_calls fs_ten (InReleases ''v8'')) fs_ten) =
     [Some (InReleases ''v7''), None, Some (InReleases ''v8'')]
   \<and> observations (run_calls (repoint_calls (InReleases ''v8'')) fs_ten) =
     [Some (InReleases ''v7''), None, Some (InReleases ''v8'')]"
  by code_simp

section \<open>Rollback beside a directory whose name does not parse\<close>

text \<open>
  C6. With \<^verbatim>\<open>v1\<close>, \<^verbatim>\<open>v2\<close> (current) and a directory \<^verbatim>\<open>vendor\<close> in the releases directory,
  \<^verbatim>\<open>rollback\<close> does not repoint to \<^verbatim>\<open>v1\<close>: the sort key \<^verbatim>\<open>int("endor")\<close> raises
  \<^verbatim>\<open>ValueError\<close>, nobody catches it, and the pointer stays on \<^verbatim>\<open>v2\<close>. The loops of
  \<^verbatim>\<open>get_next_version\<close> and \<^verbatim>\<open>releases_cleanup\<close> guard the same \<^verbatim>\<open>int\<close> with a \<^verbatim>\<open>try\<close>.
\<close>

theorem rollback_unparsable_name:
  "fst (rollback w (start fs_vendor)) = Inl ValueError
   \<and> exit_code (fst (rollback w (start fs_vendor))) = 1
   \<and> get_current_release (fsys (snd (rollback w (start fs_vendor)))) = Some (InReleases ''v2'')
   \<and> releases (fsys (snd (rollback w (start fs_vendor)))) = releases fs_vendor
   \<and> rollback_candidates fs_vendor (InReleases ''v2'') = [''v1'', ''vendor'']"
  by code_simp


section \<open>Retention never removes the current release\<close>

lemma only_removed_refl: "only_removed P f f"
  by (simp add: only_removed_def)

lemma only_removed_trans:
  assumes "only_removed P f g" "only_removed P g h"
  shows "only_removed P f h"
  unfolding only_removed_def
proof (intro conjI allI)
  show "outside h = outside f" using assms by (simp add: only_removed_def)
next
  fix n
  from assms(1) have a: "lookup g (InReleases n) = lookup f (InReleases n)
      \<or> (P n \<and> lookup f (InReleases n) = Some Dir \<and> lookup g (InReleases n) = None)"
    by (simp add: only_removed_def)
  from assms(2) have b: "lookup h (InReleases n) = lookup g (InReleases n)
      \<or> (P n \<and> lookup g (InReleases n) = Some Dir \<and> lookup h (InReleases n) = None)"
    by (simp add: only_removed_def)
  from a b show "lookup h (InReleases n) = lookup f (InReleases n)
      \<or> (P n \<and> lookup f (InReleases n) = Some Dir \<and> lookup h (InReleases n) = None)"
    by auto
qed

lemma outside_remove_entry [simp]: "outside (remove_entry n f) = outside f"
  by (simp add: remove_entry_def)

lemma rmtree_only_removed:
  "P n \<Longrightarrow> rmtree n f = Inr f' \<Longrightarrow> only_removed P f f'"
  by (auto simp: rmtree_def only_removed_def lookup_remove_entry
           split: option.splits node.splits if_splits)

lemma only_removedD:
  "only_removed P f f' \<Longrightarrow>
   lookup f' (InReleases n) = lookup f (InReleases n)
   \<or> (P n \<and> lookup f (InReleases n) = Some Dir \<and> lookup f' (InReleases n) = None)"
  by (simp add: only_removed_def)

lemma only_removed_outside:
  "only_removed P f f' \<Longrightarrow> lookup f' (Outside q) = lookup f (Outside q)"
  by (simp add: only_removed_def lookup.simps(2))

lemma only_removed_link:
  assumes "only_removed P f f'" "lookup f q = Some (Link t)"
  shows "lookup f' q = Some (Link t)"
proof (cases q)
  case (InReleases n)
  with assms(2) only_removedD[OF assms(1), of n] show ?thesis by auto
next
  case (Outside x)
  with assms(2) only_removed_outside[OF assms(1), of x] show ?thesis by simp
qed

lemma remove_loop_only_removed:
  assumes "\<And>x. x \<in> set rel \<Longrightarrow> fst x \<notin> set K \<Longrightarrow> P (snd x)"
  shows "only_removed P (fsys s) (fsys (snd (remove_loop K rel removed s)))"
  using assms
proof (induction rel arbitrary: removed s)
  case Nil
  show ?case by (simp add: only_removed_refl)
next
  case (Cons x rest)
  show ?case
  proof (cases "fst x \<in> set K")
    case True
    with Cons show ?thesis by simp
  next
    case False
    let ?s0 = "s\<lparr>log := log s @ [(INFO, ''Removing v'' @ str_int (fst x) @ ''...'')]\<rparr>"
    from False Cons.prems have px: "P (snd x)" by simp
    show ?thesis
    proof (cases "rmtree (snd x) (fsys s)")
      case (Inl e)
      with False show ?thesis
        by (simp add: and_then_def log_info_def emit_def fs_call_def only_removed_refl)
    next
      case (Inr f')
      from px Inr have a: "only_removed P (fsys s) f'" by (rule rmtree_only_removed)
      have "only_removed P (fsys (?s0\<lparr>fsys := f'\<rparr>))
              (fsys (snd (remove_loop K rest (removed + 1) (?s0\<lparr>fsys := f'\<rparr>))))"
        by (rule Cons.IH) (simp add: Cons.prems)
      then have b: "only_removed P f'
              (fsys (snd (remove_loop K rest (removed + 1) (?s0\<lparr>fsys := f'\<rparr>))))"
        by simp
      from False Inr only_removed_trans[OF a b] show ?thesis
        by (simp add: and_then_def log_info_def emit_def fs_call_def)
    qed
  qed
qed

lemma in_releases_list:
  "x \<in> set (releases_list f) \<Longrightarrow> release_version f (snd x) = Some (fst x)"
  by (auto simp: releases_list_def set_map_filter_eq)

lemma set_sort_desc [simp]: "set (sort_desc rel) = set rel"
  by (simp add: sort_desc_def)

lemma current_in_to_keep:
  assumes "x \<in> set rel" "Some (fst x) = current"
  shows "fst x \<in> set (to_keep keep current rel)"
proof -
  from assms(1) obtain i where "i < length rel" "rel ! i = x"
    by (auto simp: in_set_conv_nth)
  then have "(i, x) \<in> set (enumerate 0 rel)"
    by (simp add: in_set_enumerate_eq)
  with assms(2) show ?thesis
    by (force simp: to_keep_def)
qed

text \<open>What \<^verbatim>\<open>releases_cleanup\<close> can delete: directories whose version is not the current one.\<close>

lemma cleanup_only_removed:
  "only_removed (\<lambda>n. \<exists>v. release_version (fsys s) n = Some v
                         \<and> Some v \<noteq> get_current_version (fsys s))
     (fsys s) (fsys (snd (releases_cleanup keep s)))"
proof (cases "releases (fsys s) = None")
  case True
  then show ?thesis by (simp add: releases_cleanup_def only_removed_refl)
next
  case False
  let ?P = "\<lambda>n. \<exists>v. release_version (fsys s) n = Some v
                         \<and> Some v \<noteq> get_current_version (fsys s)"
  let ?rel = "sort_desc (releases_list (fsys s))"
  let ?K = "to_keep keep (get_current_version (fsys s)) ?rel"
  have rm: "?P (snd x)" if "x \<in> set ?rel" "fst x \<notin> set ?K" for x
  proof -
    from that(1) have "release_version (fsys s) (snd x) = Some (fst x)"
      by (simp add: in_releases_list)
    moreover from that have "Some (fst x) \<noteq> get_current_version (fsys s)"
      using current_in_to_keep[of x ?rel "get_current_version (fsys s)" keep] by blast
    ultimately show ?thesis by blast
  qed
  have loop: "only_removed ?P (fsys s) (fsys (snd (remove_loop ?K ?rel 0 s)))"
    by (rule remove_loop_only_removed) (rule rm)
  obtain r s1 where run: "remove_loop ?K ?rel 0 s = (r, s1)" by (cases "remove_loop ?K ?rel 0 s")
  with loop have l1: "only_removed ?P (fsys s) (fsys s1)" by simp
  from False have "releases_cleanup keep s =
      and_then (remove_loop ?K ?rel 0) (\<lambda>removed.
        if removed > 0 then
          and_then
            (log_success (''Cleaned up '' @ str_nat removed @ '' old release(s). Kept ''
                          @ str_nat (length (remdups ?K)) @ '' release(s).''))
            (\<lambda>u. ret PyNone)
        else ret PyNone) s"
    by (auto simp: releases_cleanup_def Let_def)
  with run have "fsys (snd (releases_cleanup keep s)) = fsys s1"
    by (cases r) (simp_all add: and_then_def log_success_def emit_def ret_def)
  with l1 show ?thesis by simp
qed

lemma follow_only_removed:
  assumes "only_removed P f f'" "lookup f' p = lookup f p"
  shows "follow k f q = Some (p, nd) \<Longrightarrow> follow k f' q = Some (p, nd)"
proof (induction k arbitrary: q)
  case 0
  then have "q = p" by (auto split: option.splits node.splits)
  with 0 assms(2) show ?case by simp
next
  case (Suc k)
  show ?case
  proof (cases "\<exists>t. lookup f q = Some (Link t)")
    case True
    then obtain t where t: "lookup f q = Some (Link t)" by blast
    with assms(1) have "lookup f' q = Some (Link t)"
      by (rule only_removed_link)
    with t Suc show ?thesis by simp
  next
    case False
    with Suc.prems assms(2) show ?thesis by (auto split: option.splits node.splits)
  qed
qed

text \<open>
  C3. Whatever the releases, the pointer and \<^verbatim>\<open>keep\<close> (0 and negative numbers as well),
  \<^verbatim>\<open>releases_cleanup\<close> leaves the current release where it is: the pointer resolves to the
  same path as before, the node at that path is untouched, and so is every directory
  whose name carries the current version number. This also holds when the clean-up ends
  early on an exception.
\<close>

theorem cleanup_keeps_current:
  assumes "get_current_release (fsys s) = Some p"
  shows "get_current_release (fsys (snd (releases_cleanup keep s))) = Some p
         \<and> lookup (fsys (snd (releases_cleanup keep s))) p = lookup (fsys s) p
         \<and> (\<forall>n v. get_current_version (fsys s) = Some v
                   \<and> release_version (fsys s) n = Some v
               \<longrightarrow> lookup (fsys (snd (releases_cleanup keep s))) (InReleases n) =
                   lookup (fsys s) (InReleases n))"
proof -
  let ?f = "fsys s" and ?f' = "fsys (snd (releases_cleanup keep s))"
  let ?P = "\<lambda>n. \<exists>v. release_version ?f n = Some v \<and> Some v \<noteq> get_current_version ?f"
  have orm: "only_removed ?P ?f ?f'" by (rule cleanup_only_removed)
  from current_release_Some[OF assms] obtain nd
    where fl: "follow MAXSYMLINKS ?f CURRENT_LINK = Some (p, nd)"
      and lp: "lookup ?f p = Some nd" by blast
  from current_release_link[OF assms] obtain t
    where lk: "lookup ?f CURRENT_LINK = Some (Link t)" by blast
  have same_p: "lookup ?f' p = lookup ?f p"
  proof (cases p)
    case (Outside q)
    with only_removed_outside[OF orm, of q] show ?thesis by simp
  next
    case (InReleases m)
    have "\<not> ?P m"
    proof
      assume "?P m"
      then obtain v where v: "release_version ?f m = Some v"
        and ne: "Some v \<noteq> get_current_version ?f" by blast
      from v have "startswith m ''v''" "py_int (drop 1 m) = Some v"
        by (auto simp: release_version_def split: if_splits)
      with assms InReleases have "get_current_version ?f = Some v"
        by (simp add: get_current_version_def)
      with ne show False by simp
    qed
    with only_removedD[OF orm, of m] InReleases show ?thesis by auto
  qed
  from orm lk have lk': "lookup ?f' CURRENT_LINK = Some (Link t)"
    by (rule only_removed_link)
  from follow_only_removed[OF orm same_p fl]
  have fl': "follow MAXSYMLINKS ?f' CURRENT_LINK = Some (p, nd)" .
  from lk' fl' have a: "get_current_release ?f' = Some p"
    by (simp add: get_current_release_def path_exists_def is_symlink_def resolve_def)
  have c: "lookup ?f' (InReleases n) = lookup ?f (InReleases n)"
    if "get_current_version ?f = Some v" "release_version ?f n = Some v" for n v
  proof -
    from that have "\<not> ?P n" by simp
    with only_removedD[OF orm, of n] show ?thesis by auto
  qed
  from a same_p c show ?thesis by blast
qed

theorem cleanup_keeps_current_witness:
  "get_current_release fs_ten = Some (InReleases ''v7'')
   \<and> get_current_release (fsys (snd (releases_cleanup 0 (start fs_ten)))) =
       Some (InReleases ''v7'')
   \<and> lookup (fsys (snd (releases_cleanup 0 (start fs_ten)))) (InReleases ''v7'') = Some Dir
   \<and> iterdir (fsys (snd (releases_cleanup 0 (start fs_ten)))) = [''v7'', ''current'']"
proof -
  have a: "get_current_release (fsys (start fs_ten)) = Some (InReleases ''v7'')" by code_simp
  have b: "lookup (fsys (start fs_ten)) (InReleases ''v7'') = Some Dir" by code_simp
  have c: "iterdir (fsys (snd (releases_cleanup 0 (start fs_ten)))) = [''v7'', ''current'']"
    by code_simp
  have d: "fsys (start fs_ten) = fs_ten" by (simp add: start_def)
  from cleanup_keeps_current[OF a, of 0] a b c d show ?thesis by simp
qed



section \<open>Commands in sequence\<close>

lemma and_then_Inr: "m s = (Inr x, s') \<Longrightarrow> and_then m k s = k x s'"
  by (simp add: and_then_def)

lemma and_then_Inl: "m s = (Inl e, s') \<Longrightarrow> and_then m k s = (Inl e, s')"
  by (simp add: and_then_def)

lemma and_then_cases:
  obtains (raised) e s' where "m s = (Inl e, s')" "and_then m k s = (Inl e, s')"
  | (returned) x s' where "m s = (Inr x, s')" "and_then m k s = k x s'"
proof (cases "m s")
  case (Pair r s')
  then show ?thesis
    by (cases r) (auto simp: and_then_def intro: raised returned)
qed

named_theorems same_fs_intros
named_theorems log_grows_intros
named_theorems never_raises_intros

lemma same_fs_and_then [same_fs_intros]:
  "steps_in same_fs m \<Longrightarrow> (\<And>x. steps_in same_fs (k x)) \<Longrightarrow> steps_in same_fs (and_then m k)"
  by (auto simp: steps_in_def same_fs_def and_then_def split: prod.splits sum.splits)
     (metis snd_conv)+

lemma log_grows_and_then [log_grows_intros]:
  "steps_in log_grows m \<Longrightarrow> (\<And>x. steps_in log_grows (k x)) \<Longrightarrow>
   steps_in log_grows (and_then m k)"
  unfolding steps_in_def log_grows_def
proof
  fix s
  assume m: "\<forall>s. \<exists>l. log (snd (m s)) = log s @ l"
    and k: "\<And>x. \<forall>s. \<exists>l. log (snd (k x s)) = log s @ l"
  from m obtain l1 where l1: "log (snd (m s)) = log s @ l1" by blast
  show "\<exists>l. log (snd (and_then m k s)) = log s @ l"
  proof (cases rule: and_then_cases[of m s k])
    case (raised e s')
    with l1 show ?thesis by simp
  next
    case (returned x s')
    from k[of x] obtain l2 where "log (snd (k x s')) = log s' @ l2" by blast
    with returned l1 show ?thesis by simp
  qed
qed

lemma never_raises_and_then [never_raises_intros]:
  "never_raises e m \<Longrightarrow> (\<And>x. never_raises e (k x)) \<Longrightarrow> never_raises e (and_then m k)"
  by (auto simp: never_raises_def and_then_def split: prod.splits sum.splits)
     (metis fst_conv)+

lemma same_fs_emit [same_fs_intros]: "steps_in same_fs (emit l msg)"
  by (simp add: steps_in_def same_fs_def emit_def)

lemma log_grows_emit [log_grows_intros]: "steps_in log_grows (emit l msg)"
  by (simp add: steps_in_def log_grows_def emit_def)

lemma never_raises_emit [never_raises_intros]: "never_raises e (emit l msg)"
  by (simp add: never_raises_def emit_def)

lemma same_fs_ret [same_fs_intros]: "steps_in same_fs (ret x)"
  by (simp add: steps_in_def same_fs_def ret_def)

lemma log_grows_ret [log_grows_intros]: "steps_in log_grows (ret x)"
  by (simp add: steps_in_def log_grows_def ret_def)

lemma never_raises_ret [never_raises_intros]: "never_raises e (ret x)"
  by (simp add: never_raises_def ret_def)

lemma same_fs_raise [same_fs_intros]: "steps_in same_fs (raise e)"
  by (simp add: steps_in_def same_fs_def raise_def)

lemma log_grows_raise [log_grows_intros]: "steps_in log_grows (raise e)"
  by (simp add: steps_in_def log_grows_def raise_def)

lemma same_fs_run_cmd [same_fs_intros]: "steps_in same_fs (run_cmd w c check d)"
  by (simp add: steps_in_def same_fs_def run_cmd_def Let_def split: cwd_status.splits)

lemma log_grows_run_cmd [log_grows_intros]: "steps_in log_grows (run_cmd w c check d)"
  by (simp add: steps_in_def log_grows_def run_cmd_def Let_def split: cwd_status.splits)

lemma never_raises_run_cmd [never_raises_intros]:
  "never_raises e (run_cmd w c False ProjectRoot)"
  by (simp add: never_raises_def run_cmd_def Let_def)

lemma same_fs_setenv [same_fs_intros]: "steps_in same_fs (setenv k v)"
  by (simp add: steps_in_def same_fs_def setenv_def)

lemma log_grows_setenv [log_grows_intros]: "steps_in log_grows (setenv k v)"
  by (simp add: steps_in_def log_grows_def setenv_def)

lemma same_fs_lift [same_fs_intros]: "steps_in same_fs (lift r)"
  by (simp add: steps_in_def same_fs_def lift_def)

lemma log_grows_lift [log_grows_intros]: "steps_in log_grows (lift r)"
  by (simp add: steps_in_def log_grows_def lift_def)

lemma same_fs_mkdir_backups [same_fs_intros]: "steps_in same_fs (mkdir_backups w)"
  by (simp add: steps_in_def same_fs_def mkdir_backups_def split: option.splits)

lemma log_grows_mkdir_backups [log_grows_intros]: "steps_in log_grows (mkdir_backups w)"
  by (simp add: steps_in_def log_grows_def mkdir_backups_def split: option.splits)

lemma log_grows_fs_call [log_grows_intros]: "steps_in log_grows (fs_call c)"
  by (auto simp: steps_in_def log_grows_def fs_call_def split: sum.splits)

lemma log_grows_fs_calls [log_grows_intros]: "steps_in log_grows (fs_calls cs)"
  by (auto simp: steps_in_def log_grows_def fs_calls_def split: prod.splits option.splits)

lemmas log_defs = log_info_def log_success_def log_warning_def log_error_def log_step_def
  print_def

lemma same_fs_for_each [same_fs_intros]:
  "(\<And>x. steps_in same_fs (body x)) \<Longrightarrow> steps_in same_fs (for_each body xs)"
  unfolding steps_in_def same_fs_def
proof
  fix s
  assume b: "\<And>x. \<forall>s. fsys (snd (body x s)) = fsys s"
  show "fsys (snd (for_each body xs s)) = fsys s"
  proof (induction xs arbitrary: s)
    case Nil
    show ?case by simp
  next
    case (Cons x xs)
    from b[of x] have "fsys (snd (body x s)) = fsys s" by blast
    with Cons show ?case by (auto split: prod.splits sum.splits)
  qed
qed

lemma log_grows_for_each [log_grows_intros]:
  "(\<And>x. steps_in log_grows (body x)) \<Longrightarrow> steps_in log_grows (for_each body xs)"
  unfolding steps_in_def log_grows_def
proof
  fix s
  assume b: "\<And>x. \<forall>s. \<exists>l. log (snd (body x s)) = log s @ l"
  show "\<exists>l. log (snd (for_each body xs s)) = log s @ l"
  proof (induction xs arbitrary: s)
    case Nil
    show ?case by simp
  next
    case (Cons x xs)
    from b[of x] obtain l1 where l1: "log (snd (body x s)) = log s @ l1" by blast
    show ?case
    proof (cases "body x s")
      case (Pair r s')
      show ?thesis
      proof (cases r)
        case (Inl e)
        with Pair l1 show ?thesis by simp
      next
        case (Inr u)
        from Cons[of s'] obtain l2 where "log (snd (for_each body xs s')) = log s' @ l2"
          by blast
        with Pair Inr l1 show ?thesis by simp
      qed
    qed
  qed
qed

lemma never_raises_for_each [never_raises_intros]:
  "(\<And>x. never_raises e (body x)) \<Longrightarrow> never_raises e (for_each body xs)"
  unfolding never_raises_def
proof
  fix s
  assume b: "\<And>x. \<forall>s. fst (body x s) \<noteq> Inl e"
  show "fst (for_each body xs s) \<noteq> Inl e"
  proof (induction xs arbitrary: s)
    case Nil
    show ?case by simp
  next
    case (Cons x xs)
    from b[of x] have "fst (body x s) \<noteq> Inl e" by blast
    with Cons show ?case by (auto split: prod.splits sum.splits)
  qed
qed

section \<open>What the parts of a deployment leave alone\<close>

lemma same_fs_reload_service [same_fs_intros]: "steps_in same_fs (reload_service w item)"
  unfolding reload_service_def log_defs
  by (auto split: prod.splits intro!: same_fs_intros)

lemma log_grows_reload_service [log_grows_intros]: "steps_in log_grows (reload_service w item)"
  unfolding reload_service_def log_defs
  by (auto split: prod.splits intro!: log_grows_intros)

lemma never_raises_reload_service [never_raises_intros]:
  "never_raises e (reload_service w item)"
  unfolding reload_service_def log_defs
  by (auto split: prod.splits intro!: never_raises_intros)

lemma same_fs_services_reload [same_fs_intros]: "steps_in same_fs (services_reload w)"
  unfolding services_reload_def log_defs by (intro same_fs_intros)

lemma log_grows_services_reload [log_grows_intros]: "steps_in log_grows (services_reload w)"
  unfolding services_reload_def log_defs by (intro log_grows_intros)

lemma never_raises_services_reload [never_raises_intros]:
  "never_raises e (services_reload w)"
  unfolding services_reload_def log_defs by (intro never_raises_intros)

lemma same_fs_get_env_config [same_fs_intros]: "steps_in same_fs (get_env_config env)"
  unfolding get_env_config_def log_defs
  by (auto split: option.splits intro!: same_fs_intros)

lemma log_grows_get_env_config [log_grows_intros]: "steps_in log_grows (get_env_config env)"
  unfolding get_env_config_def log_defs
  by (auto split: option.splits intro!: log_grows_intros)

lemma same_fs_db_backup [same_fs_intros]: "steps_in same_fs (db_backup w env)"
  unfolding db_backup_def log_defs
  by (auto split: option.splits prod.splits intro!: same_fs_intros)

lemma log_grows_db_backup [log_grows_intros]: "steps_in log_grows (db_backup w env)"
  unfolding db_backup_def log_defs
  by (auto split: option.splits prod.splits intro!: log_grows_intros)

lemma same_fs_deploy_header [same_fs_intros]: "steps_in same_fs (deploy_header env skip)"
  unfolding deploy_header_def log_defs by (auto intro!: same_fs_intros)

lemma log_grows_deploy_header [log_grows_intros]: "steps_in log_grows (deploy_header env skip)"
  unfolding deploy_header_def log_defs by (auto intro!: log_grows_intros)

lemma never_raises_deploy_header [never_raises_intros]:
  "never_raises e (deploy_header env skip)"
  unfolding deploy_header_def log_defs by (auto intro!: never_raises_intros)

lemma same_fs_deploy_backup [same_fs_intros]:
  "steps_in same_fs (deploy_backup w env skip step total_steps)"
  unfolding deploy_backup_def log_defs by (auto intro!: same_fs_intros)

lemma log_grows_deploy_backup [log_grows_intros]:
  "steps_in log_grows (deploy_backup w env skip step total_steps)"
  unfolding deploy_backup_def log_defs by (auto intro!: log_grows_intros)

lemma same_fs_deploy_provision [same_fs_intros]:
  "steps_in same_fs (deploy_provision w config release step total_steps)"
  unfolding deploy_provision_def log_defs by (intro same_fs_intros)

lemma log_grows_deploy_provision [log_grows_intros]:
  "steps_in log_grows (deploy_provision w config release step total_steps)"
  unfolding deploy_provision_def log_defs by (intro log_grows_intros)

lemma same_fs_deploy_health_check [same_fs_intros]:
  "steps_in same_fs (deploy_health_check w step total_steps)"
  unfolding deploy_health_check_def log_defs by (intro same_fs_intros)

lemma log_grows_deploy_health_check [log_grows_intros]:
  "steps_in log_grows (deploy_health_check w step total_steps)"
  unfolding deploy_health_check_def log_defs by (intro log_grows_intros)

lemma never_raises_deploy_health_check [never_raises_intros]:
  "never_raises e (deploy_health_check w step total_steps)"
  unfolding deploy_health_check_def log_defs by (intro never_raises_intros)


section \<open>Creating the release directory\<close>

lemma lookup_mkdir_releases [simp]: "lookup (mkdir_releases f) p = lookup f p"
  by (cases p) (auto simp: mkdir_releases_def lookup.simps)

lemma releases_mkdir_releases [simp]: "releases (mkdir_releases f) \<noteq> None"
  by (simp add: mkdir_releases_def)

lemma create_release_unfold:
  "deploy_create_release step total_steps s =
     (case mkdir (''v'' @ str_int (get_next_version (fsys s))) (mkdir_releases (fsys s)) of
        Inl e \<Rightarrow>
          (Inl e, s\<lparr>log := log s @ [(STEP (step + 1) total_steps,
                                       ''Creating release v'' @ str_int (get_next_version (fsys s)))],
                    fsys := mkdir_releases (fsys s)\<rparr>)
      | Inr f \<Rightarrow>
          (Inr (step + 1, get_next_version (fsys s), ''v'' @ str_int (get_next_version (fsys s))),
           s\<lparr>log := log s @ [(STEP (step + 1) total_steps,
                                ''Creating release v'' @ str_int (get_next_version (fsys s)))],
             fsys := f\<rparr>))"
  by (simp add: deploy_create_release_def Let_def and_then_def log_step_def emit_def
                fs_call_def ret_def split: sum.splits)

lemma log_grows_create_release [log_grows_intros]:
  "steps_in log_grows (deploy_create_release step total_steps)"
  by (auto simp: steps_in_def log_grows_def create_release_unfold split: sum.splits)

lemma create_release_logs:
  "\<exists>l. log (snd (deploy_create_release step total_steps s)) =
         log s @ (STEP (step + 1) total_steps,
                  ''Creating release v'' @ str_int (get_next_version (fsys s))) # l"
  by (auto simp: create_release_unfold split: sum.splits)

lemma create_release_Inr:
  assumes "deploy_create_release step total_steps s = (Inr x, s')"
  shows "x = (step + 1, get_next_version (fsys s), ''v'' @ str_int (get_next_version (fsys s)))"
    and "lookup (fsys s) (InReleases (snd (snd x))) = None"
    and "fsys s' = add_entry (snd (snd x)) Dir (mkdir_releases (fsys s))"
    and "lookup (fsys s') p =
           (if p = InReleases (snd (snd x)) then Some Dir else lookup (fsys s) p)"
proof -
  let ?rel = "''v'' @ str_int (get_next_version (fsys s))"
  from assms obtain f where mk: "mkdir ?rel (mkdir_releases (fsys s)) = Inr f"
    and x: "x = (step + 1, get_next_version (fsys s), ?rel)" and s': "fsys s' = f"
    by (auto simp: create_release_unfold split: sum.splits)
  from mk have fresh: "lookup (mkdir_releases (fsys s)) (InReleases ?rel) = None"
    and f: "f = add_entry ?rel Dir (mkdir_releases (fsys s))"
    by (auto simp: mkdir_def split: if_splits)
  show "x = (step + 1, get_next_version (fsys s), ?rel)" by (rule x)
  from fresh x show "lookup (fsys s) (InReleases (snd (snd x))) = None" by simp
  from f s' x show "fsys s' = add_entry (snd (snd x)) Dir (mkdir_releases (fsys s))" by simp
  from lookup_add_entry[OF fresh releases_mkdir_releases, of Dir p] f s' x
  show "lookup (fsys s') p =
           (if p = InReleases (snd (snd x)) then Some Dir else lookup (fsys s) p)"
    by simp
qed

section \<open>Switching the pointer inside a run\<close>

lemma unlink_symlink_run:
  assumes "lookup f CURRENT_LINK = Some nd" "nd \<noteq> Dir"
  shows "run_calls [unlink ''current'', symlink_to ''current'' target] f =
           ([f, remove_entry ''current'' f,
             add_entry ''current'' (Link target) (remove_entry ''current'' f)], None)"
    and "lookup (add_entry ''current'' (Link target) (remove_entry ''current'' f)) p =
           (if p = CURRENT_LINK then Some (Link target) else lookup f p)"
proof -
  from assms have r: "releases f \<noteq> None"
    by (auto simp: CURRENT_LINK_def dest: lookup_Some_releases)
  from assms have u: "unlink ''current'' f = Inr (remove_entry ''current'' f)"
    by (cases nd) (simp_all add: unlink_def CURRENT_LINK_def)
  have gone: "lookup (remove_entry ''current'' f) (InReleases ''current'') = None"
    by (simp add: lookup_remove_entry)
  with r have s: "symlink_to ''current'' target (remove_entry ''current'' f) =
      Inr (add_entry ''current'' (Link target) (remove_entry ''current'' f))"
    by (simp add: symlink_to_def)
  show "run_calls [unlink ''current'', symlink_to ''current'' target] f =
           ([f, remove_entry ''current'' f,
             add_entry ''current'' (Link target) (remove_entry ''current'' f)], None)"
    by (simp add: u s)
  from r have r': "releases (remove_entry ''current'' f) \<noteq> None" by simp
  from lookup_add_entry[OF gone r']
  show "lookup (add_entry ''current'' (Link target) (remove_entry ''current'' f)) p =
           (if p = CURRENT_LINK then Some (Link target) else lookup f p)"
    by (simp add: lookup_remove_entry CURRENT_LINK_def)
qed

lemma switch_result:
  assumes "fs_calls (switch_calls (fsys s) target) s = (Inr u, s')"
  shows "lookup (fsys s') p = (if p = CURRENT_LINK then Some (Link target) else lookup (fsys s) p)"
    and "log s' = log s" and "cmds s' = cmds s"
proof -
  let ?f = "fsys s"
  have "lookup (fsys s') p = (if p = CURRENT_LINK then Some (Link target) else lookup ?f p)
        \<and> log s' = log s \<and> cmds s' = cmds s"
  proof (cases "lookup ?f CURRENT_LINK")
    case None
    then have c: "switch_calls ?f target = [symlink_to ''current'' target]"
      by (simp add: switch_calls_def path_exists_def follow_absent is_symlink_def)
    from None have n: "lookup ?f (InReleases ''current'') = None"
      by (simp add: CURRENT_LINK_def)
    show ?thesis
    proof (cases "releases ?f = None")
      case True
      with assms c show ?thesis by (simp add: fs_calls_def symlink_to_def)
    next
      case False
      with n have "symlink_to ''current'' target ?f = Inr (add_entry ''current'' (Link target) ?f)"
        by (simp add: symlink_to_def)
      with assms c have "s' = s\<lparr>fsys := add_entry ''current'' (Link target) ?f\<rparr>"
        by (simp add: fs_calls_def)
      with lookup_add_entry[OF n False, of "Link target" p] show ?thesis
        by (simp add: CURRENT_LINK_def)
    qed
  next
    case (Some nd)
    then have c: "switch_calls ?f target = [unlink ''current'', symlink_to ''current'' target]"
      by (cases "\<exists>t. nd = Link t")
         (auto simp: switch_calls_def path_exists_def follow_nonlink is_symlink_def)
    show ?thesis
    proof (cases "nd = Dir")
      case True
      with Some have "unlink ''current'' ?f = Inl IsADirectoryError"
        by (simp add: unlink_def CURRENT_LINK_def)
      with assms c show ?thesis by (simp add: fs_calls_def)
    next
      case False
      from unlink_symlink_run(1)[OF Some False, of target] assms c
      have "s' = s\<lparr>fsys := add_entry ''current'' (Link target) (remove_entry ''current'' ?f)\<rparr>"
        by (simp add: fs_calls_def)
      with unlink_symlink_run(2)[OF Some False, of target p] show ?thesis by simp
    qed
  qed
  then show "lookup (fsys s') p =
      (if p = CURRENT_LINK then Some (Link target) else lookup (fsys s) p)"
    and "log s' = log s" and "cmds s' = cmds s" by simp_all
qed

lemma deploy_switch_unfold:
  "deploy_switch release step total_steps s =
     (case fs_calls (switch_calls (fsys s) (InReleases release))
             (s\<lparr>log := log s @ [(STEP (step + 1) total_steps, ''Switching to new release...'')]\<rparr>) of
        (Inl e, s') \<Rightarrow> (Inl e, s')
      | (Inr u, s') \<Rightarrow> (Inr (step + 1, get_current_release (fsys s)), s'))"
  by (simp add: deploy_switch_def and_then_def log_step_def emit_def Let_def ret_def
           split: prod.splits sum.splits)

lemma log_grows_deploy_switch [log_grows_intros]:
  "steps_in log_grows (deploy_switch release step total_steps)"
  unfolding steps_in_def log_grows_def
proof
  fix s :: state
  let ?s0 = "s\<lparr>log := log s @ [(STEP (step + 1) total_steps, ''Switching to new release...'')]\<rparr>"
  have "steps_in log_grows (fs_calls (switch_calls (fsys s) (InReleases release)))"
    by (rule log_grows_fs_calls)
  then obtain l where
    "log (snd (fs_calls (switch_calls (fsys s) (InReleases release)) ?s0)) = log ?s0 @ l"
    unfolding steps_in_def log_grows_def by blast
  then show "\<exists>l. log (snd (deploy_switch release step total_steps s)) = log s @ l"
    by (auto simp: deploy_switch_unfold split: prod.splits sum.splits)
qed

lemma deploy_switch_Inr:
  assumes "deploy_switch release step total_steps s = (Inr x, s')"
  shows "x = (step + 1, get_current_release (fsys s))"
    and "lookup (fsys s') p =
           (if p = CURRENT_LINK then Some (Link (InReleases release)) else lookup (fsys s) p)"
proof -
  let ?s0 = "s\<lparr>log := log s @ [(STEP (step + 1) total_steps, ''Switching to new release...'')]\<rparr>"
  from assms obtain u where
    run: "fs_calls (switch_calls (fsys ?s0) (InReleases release)) ?s0 = (Inr u, s')"
    and x: "x = (step + 1, get_current_release (fsys s))"
    by (auto simp: deploy_switch_unfold split: prod.splits sum.splits)
  show "x = (step + 1, get_current_release (fsys s))" by (rule x)
  from switch_result(1)[OF run, of p]
  show "lookup (fsys s') p =
           (if p = CURRENT_LINK then Some (Link (InReleases release)) else lookup (fsys s) p)"
    by simp
qed


section \<open>The end of a deployment\<close>

lemma log_grows_remove_loop:
  "\<exists>l. log (snd (remove_loop K rel removed s)) = log s @ l"
proof (induction rel arbitrary: removed s)
  case Nil
  show ?case by simp
next
  case (Cons x rest)
  show ?case
  proof (cases "fst x \<in> set K")
    case True
    with Cons[of removed s] show ?thesis by simp
  next
    case False
    let ?s0 = "s\<lparr>log := log s @ [(INFO, ''Removing v'' @ str_int (fst x) @ ''...'')]\<rparr>"
    show ?thesis
    proof (cases "rmtree (snd x) (fsys s)")
      case (Inl e)
      with False show ?thesis
        by (simp add: and_then_def log_info_def emit_def fs_call_def)
    next
      case (Inr f')
      from Cons[of "removed + 1" "?s0\<lparr>fsys := f'\<rparr>"] obtain l where
        "log (snd (remove_loop K rest (removed + 1) (?s0\<lparr>fsys := f'\<rparr>))) =
           log (?s0\<lparr>fsys := f'\<rparr>) @ l" by blast
      with False Inr show ?thesis
        by (simp add: and_then_def log_info_def emit_def fs_call_def)
    qed
  qed
qed

lemma releases_cleanup_split:
  assumes "releases (fsys s) \<noteq> None"
  obtains (raised) e s' where "releases_cleanup keep s = (Inl e, s')"
      "remove_loop (to_keep keep (get_current_version (fsys s))
                       (sort_desc (releases_list (fsys s))))
          (sort_desc (releases_list (fsys s))) 0 s = (Inl e, s')"
  | (returned) removed s' l where
      "remove_loop (to_keep keep (get_current_version (fsys s))
                       (sort_desc (releases_list (fsys s))))
          (sort_desc (releases_list (fsys s))) 0 s = (Inr removed, s')"
      "fst (releases_cleanup keep s) = Inr PyNone"
      "log (snd (releases_cleanup keep s)) = log s' @ l"
      "fsys (snd (releases_cleanup keep s)) = fsys s'"
proof -
  let ?K = "to_keep keep (get_current_version (fsys s)) (sort_desc (releases_list (fsys s)))"
  let ?loop = "remove_loop ?K (sort_desc (releases_list (fsys s))) 0 s"
  obtain r s' where run: "?loop = (r, s')" by (cases ?loop)
  show ?thesis
  proof (cases r)
    case (Inl e)
    with run assms have "releases_cleanup keep s = (Inl e, s')"
      by (auto simp: releases_cleanup_def Let_def and_then_def)
    with run Inl show ?thesis by (auto intro: raised)
  next
    case (Inr removed)
    with run assms have
      "fst (releases_cleanup keep s) = Inr PyNone"
      "\<exists>l. log (snd (releases_cleanup keep s)) = log s' @ l"
      "fsys (snd (releases_cleanup keep s)) = fsys s'"
      by (auto simp: releases_cleanup_def Let_def and_then_def log_success_def emit_def ret_def)
    with run Inr show ?thesis by (auto intro: returned)
  qed
qed

lemma log_grows_releases_cleanup [log_grows_intros]:
  "steps_in log_grows (releases_cleanup keep)"
  unfolding steps_in_def
proof
  fix s :: state
  show "log_grows s (snd (releases_cleanup keep s))"
  proof (cases "releases (fsys s) = None")
    case True
    then show ?thesis by (simp add: releases_cleanup_def log_grows_def)
  next
    case False
    then show ?thesis
    proof (cases rule: releases_cleanup_split[of s keep])
      case (raised e s')
      from log_grows_remove_loop[of _ _ 0 s] raised(2) obtain l where "log s' = log s @ l"
        by (metis snd_conv)
      with raised(1) show ?thesis by (simp add: log_grows_def)
    next
      case (returned removed s' l)
      from log_grows_remove_loop[of _ _ 0 s] returned(1) obtain l0 where "log s' = log s @ l0"
        by (metis snd_conv)
      with returned(3) show ?thesis by (simp add: log_grows_def)
    qed
  qed
qed

lemma log_grows_deploy_finish [log_grows_intros]:
  "steps_in log_grows (deploy_finish w version previous healthy total_steps)"
  unfolding deploy_finish_def log_defs
  by (auto split: option.splits intro!: log_grows_intros)


section \<open>Walking through a deployment\<close>

lemma never_raisesD: "never_raises e m \<Longrightarrow> m s = (Inl e, s') \<Longrightarrow> False"
  by (auto simp: never_raises_def dest: spec[of _ s])

lemma same_fsD: "steps_in same_fs m \<Longrightarrow> m s = (r, s') \<Longrightarrow> fsys s' = fsys s"
  by (auto simp: steps_in_def same_fs_def dest: spec[of _ s])

lemma log_growsD: "steps_in log_grows m \<Longrightarrow> m s = (r, s') \<Longrightarrow> \<exists>l. log s' = log s @ l"
  by (auto simp: steps_in_def log_grows_def dest: spec[of _ s])

lemma get_env_config_Inr:
  "get_env_config env s = (Inr config, s') \<Longrightarrow> map_of ENVIRONMENTS env = Some config \<and> s' = s"
  by (auto simp: get_env_config_def and_then_def log_error_def emit_def raise_def ret_def
           split: option.splits)

lemma get_env_config_valid:
  "map_of ENVIRONMENTS env = Some config \<Longrightarrow> get_env_config env s = (Inr config, s)"
  by (simp add: get_env_config_def ret_def)


section \<open>A file system that only gained entries\<close>

lemma follow_extend:
  assumes "\<And>q nd. lookup f q = Some nd \<Longrightarrow> lookup f' q = Some nd"
  shows "follow k f q = Some r \<Longrightarrow> follow k f' q = Some r"
proof (induction k arbitrary: q)
  case 0
  then obtain nd where "lookup f q = Some nd" by (auto split: option.splits)
  with 0 assms[of q nd] show ?case by (auto split: option.splits node.splits)
next
  case (Suc k)
  then obtain nd where nd: "lookup f q = Some nd" by (auto split: option.splits)
  show ?case
  proof (cases nd)
    case (Link t)
    with nd Suc.prems have "follow k f t = Some r" by simp
    from Suc.IH[OF this] nd Link assms[of q nd] show ?thesis by simp
  next
    case Dir
    with nd Suc.prems assms[of q nd] show ?thesis by simp
  next
    case File
    with nd Suc.prems assms[of q nd] show ?thesis by simp
  qed
qed

lemma current_release_extend:
  assumes "\<And>q nd. lookup f q = Some nd \<Longrightarrow> lookup f' q = Some nd"
    and "get_current_release f = Some p"
  shows "get_current_release f' = Some p"
proof -
  from current_release_Some[OF assms(2)] obtain nd
    where fl: "follow MAXSYMLINKS f CURRENT_LINK = Some (p, nd)" by blast
  from current_release_link[OF assms(2)] obtain t
    where "lookup f CURRENT_LINK = Some (Link t)" by blast
  with assms(1) have "lookup f' CURRENT_LINK = Some (Link t)" by blast
  moreover from follow_extend[of f f', OF assms(1) fl]
  have "follow MAXSYMLINKS f' CURRENT_LINK = Some (p, nd)" by blast
  ultimately show ?thesis
    by (simp add: get_current_release_def path_exists_def is_symlink_def resolve_def)
qed


section \<open>Steps 1 and 2 of a deployment\<close>

lemma and_then_Inr_elim:
  assumes "and_then m k s = (Inr y, s')"
  obtains x s1 where "m s = (Inr x, s1)" "k x s1 = (Inr y, s')"
  using assms by (cases rule: and_then_cases[of m s k]) auto

lemma deploy_backup_Inr:
  assumes "deploy_backup w env skip step total_steps s = (Inr x, s')"
  shows "x = (if skip then step else step + 1)" and "fsys s' = fsys s"
proof -
  from assms show "x = (if skip then step else step + 1)"
    by (auto simp: deploy_backup_def and_then_def log_step_def emit_def ret_def
             split: if_splits prod.splits sum.splits)
  from assms show "fsys s' = fsys s" by (rule same_fsD[OF same_fs_deploy_backup])
qed

text \<open>
  When steps 1 and 2 return, the environment is a configured one, the version is the next
  one, its directory is new, and nothing else in the file system has changed.
\<close>

lemma deploy_prepare_Inr:
  assumes "deploy_prepare w env skip s = (Inr (config, total_steps, step, version, release), s1)"
  shows "map_of ENVIRONMENTS env = Some config"
    and "total_steps = (if skip then 9 else 10)"
    and "step = (if skip then 1 else 2)"
    and "version = get_next_version (fsys s)"
    and "release = ''v'' @ str_int version"
    and "lookup (fsys s) (InReleases release) = None"
    and "lookup (fsys s1) p = (if p = InReleases release then Some Dir else lookup (fsys s) p)"
proof -
  let ?tot = "if skip then 9 else 10 :: nat"
  from assms obtain config' sa where
    cf: "get_env_config env s = (Inr config', sa)" and
    k1: "and_then (deploy_header env skip) (\<lambda>u.
         and_then (deploy_backup w env skip 0 ?tot) (\<lambda>step.
         and_then (deploy_create_release step ?tot) (\<lambda>created.
         ret (config', ?tot, created)))) sa
         = (Inr (config, total_steps, step, version, release), s1)"
    unfolding deploy_prepare_def Let_def by (rule and_then_Inr_elim)
  from get_env_config_Inr[OF cf] have cfg: "map_of ENVIRONMENTS env = Some config'"
    and sa: "sa = s" by simp_all
  from k1 obtain u sb where
    hd: "deploy_header env skip sa = (Inr u, sb)" and
    k2: "and_then (deploy_backup w env skip 0 ?tot) (\<lambda>step.
         and_then (deploy_create_release step ?tot) (\<lambda>created.
         ret (config', ?tot, created))) sb
         = (Inr (config, total_steps, step, version, release), s1)"
    by (rule and_then_Inr_elim)
  from k2 obtain st sc where
    bk: "deploy_backup w env skip 0 ?tot sb = (Inr st, sc)" and
    k3: "and_then (deploy_create_release st ?tot) (\<lambda>created.
         ret (config', ?tot, created)) sc
         = (Inr (config, total_steps, step, version, release), s1)"
    by (rule and_then_Inr_elim)
  from k3 obtain created sd where
    cr: "deploy_create_release st ?tot sc = (Inr created, sd)" and
    k4: "ret (config', ?tot, created) sd = (Inr (config, total_steps, step, version, release), s1)"
    by (rule and_then_Inr_elim)
  from k4 have eq: "config = config'" "total_steps = ?tot" "created = (step, version, release)"
    "sd = s1" by (simp_all add: ret_def)
  have fb: "fsys sb = fsys s" using same_fsD[OF same_fs_deploy_header hd] sa by simp
  from deploy_backup_Inr[OF bk] fb have st: "st = (if skip then 0 else 1)"
    and fc: "fsys sc = fsys s" by simp_all
  note c = create_release_Inr[OF cr, unfolded fc eq]
  from cfg eq show "map_of ENVIRONMENTS env = Some config" by simp
  from eq show "total_steps = (if skip then 9 else 10)" by simp
  from c(1) st show "step = (if skip then 1 else 2)" by simp
  from c(1) show "version = get_next_version (fsys s)" by simp
  from c(1) show "release = ''v'' @ str_int version" by simp
  from c(2) show "lookup (fsys s) (InReleases release) = None" by simp
  from c(4)[of p]
  show "lookup (fsys s1) p = (if p = InReleases release then Some Dir else lookup (fsys s) p)"
    by simp
qed



section \<open>The provisioning steps\<close>

text \<open>
  A command run with \<^verbatim>\<open>check=True\<close> returns exactly when its step succeeds; otherwise it
  raises, before the command is started when the working directory is not there.
\<close>

lemma run_cmd_checked:
  "run_cmd w c True d s =
     (if step_ok w (fsys s) (cmds s) c d then (Inr 0, s\<lparr>cmds := cmds s @ [c]\<rparr>)
      else (case stat_cwd w (fsys s) (cmds s) d of
              CwdMissing \<Rightarrow> (Inl FileNotFoundError, s)
            | CwdNotDir \<Rightarrow> (Inl NotADirectoryError, s)
            | CwdDir \<Rightarrow> (Inl CalledProcessError, s\<lparr>cmds := cmds s @ [c]\<rparr>)))"
  by (simp add: run_cmd_def step_ok_def Let_def split: cwd_status.splits)

lemma provision_Inr:
  assumes "deploy_provision w config release step total_steps s = (Inr x, s')"
  shows "x = step + 4" and "fsys s' = fsys s"
proof -
  from assms show "fsys s' = fsys s" by (rule same_fsD[OF same_fs_deploy_provision])
  from assms show "x = step + 4"
    by (auto simp: deploy_provision_def and_then_def log_step_def emit_def ret_def
             split: prod.splits sum.splits)
qed

text \<open>When the four steps succeed in their order, the provisioning returns.\<close>

lemma provision_ok_returns:
  assumes "provision_ok w (fsys s) (cmds s) release"
    and "CHR 0x00 \<notin> set (django_settings config)"
  shows "fst (deploy_provision w config release step total_steps s) = Inr (step + 4)"
  using assms
  by (simp add: deploy_provision_def provision_ok_def and_then_def log_step_def emit_def
                ret_def setenv_def run_cmd_checked)




section \<open>Deploy with a failing provisioning step\<close>




text \<open>
  A release whose archive has no \<^verbatim>\<open>web\<close> directory: the migration cannot be started, and
  the deployment ends there with \<^verbatim>\<open>FileNotFoundError\<close>, the pointer where it was.
\<close>

lemma deploy_without_web_directory:
  "fst (deploy world_no_web ''production'' True (start fs_ten)) = Inl FileNotFoundError
   \<and> exit_code (fst (deploy world_no_web ''production'' True (start fs_ten))) = 1
   \<and> cmds (snd (deploy world_no_web ''production'' True (start fs_ten)))
       = [GitArchive ''v11'', PipInstall ''v11'']
   \<and> get_current_release (fsys (snd (deploy world_no_web ''production'' True (start fs_ten))))
       = Some (InReleases ''v7'')
   \<and> lookup (fsys (snd (deploy world_no_web ''production'' True (start fs_ten))))
       (InReleases ''v11'') = Some Dir"
  by code_simp


section \<open>A deployment that reaches the health check\<close>

lemma services_reload_returns: "\<exists>s'. services_reload w s = (Inr (), s')"
proof (cases "services_reload w s")
  case (Pair r s')
  show ?thesis
  proof (cases r)
    case (Inl e)
    with Pair never_raisesD[OF never_raises_services_reload] show ?thesis by blast
  next
    case (Inr u)
    with Pair show ?thesis by simp
  qed
qed

lemma health_check_Inr:
  "deploy_health_check w step total_steps s = (Inr x, s') \<Longrightarrow> fsys s' = fsys s"
  by (rule same_fsD[OF same_fs_deploy_health_check])

text \<open>
  Steps 7 to 9, when they come to a verdict: the pointer is a link to the release, nothing
  else has changed, and \<open>previous\<close> is what the pointer led to before the switch.
\<close>

lemma activate_and_check_Inr:
  assumes "deploy_activate_and_check w release step total_steps s
             = (Inr (previous, healthy), s')"
  shows "previous = get_current_release (fsys s)"
    and "lookup (fsys s') p =
           (if p = CURRENT_LINK then Some (Link (InReleases release)) else lookup (fsys s) p)"
proof -
  from assms obtain switched s3 where
    sw: "deploy_switch release step total_steps s = (Inr switched, s3)" and
    k3: "and_then (log_step (fst switched + 1) total_steps ''Reloading services...'') (\<lambda>u.
          and_then (services_reload w) (\<lambda>u.
          and_then (deploy_health_check w (fst switched + 1) total_steps) (\<lambda>checked.
          ret (snd switched, snd checked)))) s3
         = (Inr (previous, healthy), s')"
    unfolding deploy_activate_and_check_def by (rule and_then_Inr_elim)
  from k3 obtain u4 s4 where
    lg: "log_step (fst switched + 1) total_steps ''Reloading services...'' s3 = (Inr u4, s4)" and
    k4: "and_then (services_reload w) (\<lambda>u.
          and_then (deploy_health_check w (fst switched + 1) total_steps) (\<lambda>checked.
          ret (snd switched, snd checked))) s4
         = (Inr (previous, healthy), s')"
    by (rule and_then_Inr_elim)
  from k4 obtain u5 s5 where
    rl: "services_reload w s4 = (Inr u5, s5)" and
    k5: "and_then (deploy_health_check w (fst switched + 1) total_steps) (\<lambda>checked.
          ret (snd switched, snd checked)) s5
         = (Inr (previous, healthy), s')"
    by (rule and_then_Inr_elim)
  from k5 obtain checked s6 where
    hc: "deploy_health_check w (fst switched + 1) total_steps s5 = (Inr checked, s6)" and
    k6: "ret (snd switched, snd checked) s6 = (Inr (previous, healthy), s')"
    by (rule and_then_Inr_elim)
  from k6 have pv: "previous = snd switched" and s6: "s6 = s'" by (simp_all add: ret_def)
  from lg have f4: "fsys s4 = fsys s3" by (auto simp: log_step_def emit_def)
  have f5: "fsys s5 = fsys s4" using same_fsD[OF same_fs_services_reload rl] .
  have f6: "fsys s' = fsys s5" using health_check_Inr[OF hc] s6 by simp
  note d = deploy_switch_Inr[OF sw]
  from d(1) pv show "previous = get_current_release (fsys s)" by simp
  from d(2)[of p] f4 f5 f6
  show "lookup (fsys s') p =
           (if p = CURRENT_LINK then Some (Link (InReleases release)) else lookup (fsys s) p)"
    by simp
qed

text \<open>
  Steps 1 to 9, when they come to a verdict: the version is the next one, its directory
  is new, the pointer is a link to it, nothing else has changed, and \<open>previous\<close> is what
  the pointer led to when the new directory was already there.
\<close>

lemma until_check_Inr:
  assumes "deploy_until_check w env skip s = (Inr (tot, version, previous, healthy), s')"
  shows "version = get_next_version (fsys s)"
    and "lookup (fsys s) (InReleases (''v'' @ str_int version)) = None"
    and "lookup (fsys s') p =
           (if p = CURRENT_LINK then Some (Link (InReleases (''v'' @ str_int version)))
            else if p = InReleases (''v'' @ str_int version) then Some Dir
            else lookup (fsys s) p)"
    and "lookup (fsys s) CURRENT_LINK = None \<Longrightarrow> previous = None"
    and "get_current_release (fsys s) = Some q \<Longrightarrow> previous = Some q"
    and "previous = Some q \<Longrightarrow>
           q \<noteq> CURRENT_LINK \<and> (\<exists>nd. lookup (fsys s') q = Some nd \<and> (\<forall>t. nd \<noteq> Link t))"
    and "tot = (if skip then 9 else 10)"
proof -
  let ?rel = "''v'' @ str_int version"
  from assms obtain pp s1 where
    pre0: "deploy_prepare w env skip s = (Inr pp, s1)" and
    k1: "(case pp of (config, total_steps, step, version, release) \<Rightarrow>
           and_then (deploy_provision w config release step total_steps) (\<lambda>step.
           and_then (deploy_activate_and_check w release step total_steps) (\<lambda>r.
           ret (total_steps, version, r)))) s1
         = (Inr (tot, version, previous, healthy), s')"
    unfolding deploy_until_check_def by (rule and_then_Inr_elim)
  obtain config total_steps step version' release
    where pp: "pp = (config, total_steps, step, version', release)" by (cases pp)
  from pre0 pp have pre: "deploy_prepare w env skip s
      = (Inr (config, total_steps, step, version', release), s1)" by simp
  from k1 pp have k1': "and_then (deploy_provision w config release step total_steps) (\<lambda>step.
           and_then (deploy_activate_and_check w release step total_steps) (\<lambda>r.
           ret (total_steps, version', r))) s1
         = (Inr (tot, version, previous, healthy), s')" by simp
  from k1' obtain st2 s2 where
    pr: "deploy_provision w config release step total_steps s1 = (Inr st2, s2)" and
    k2: "and_then (deploy_activate_and_check w release st2 total_steps) (\<lambda>r.
           ret (total_steps, version', r)) s2
         = (Inr (tot, version, previous, healthy), s')"
    by (rule and_then_Inr_elim)
  from k2 obtain r s3 where
    ac0: "deploy_activate_and_check w release st2 total_steps s2 = (Inr r, s3)" and
    k3: "ret (total_steps, version', r) s3 = (Inr (tot, version, previous, healthy), s')"
    by (rule and_then_Inr_elim)
  from k3 have eq: "tot = total_steps" "version' = version" "r = (previous, healthy)" "s3 = s'"
    by (simp_all add: ret_def)
  from ac0 eq have ac: "deploy_activate_and_check w release st2 total_steps s2
      = (Inr (previous, healthy), s')" by simp
  note c = deploy_prepare_Inr[OF pre, unfolded eq]
  from c(5) have rel: "release = ?rel" .
  have f2: "fsys s2 = fsys s1" using provision_Inr(2)[OF pr] .
  note d = activate_and_check_Inr[OF ac, unfolded f2 rel]
  have l1: "lookup (fsys s1) p' = (if p' = InReleases ?rel then Some Dir else lookup (fsys s) p')"
    for p' using c(7)[of p'] rel by simp
  have l': "lookup (fsys s') p' =
      (if p' = CURRENT_LINK then Some (Link (InReleases ?rel)) else lookup (fsys s1) p')" for p'
    using d(2)[of p'] by simp
  have ne: "CURRENT_LINK \<noteq> InReleases ?rel" by (simp add: CURRENT_LINK_def)
  from d(1) have prev: "previous = get_current_release (fsys s1)" .
  from c(4) show "version = get_next_version (fsys s)" .
  from c(6) rel show "lookup (fsys s) (InReleases ?rel) = None" by simp
  then have fresh: "lookup (fsys s) (InReleases ?rel) = None" .
  from l'[of p] l1[of p] show "lookup (fsys s') p =
           (if p = CURRENT_LINK then Some (Link (InReleases ?rel))
            else if p = InReleases ?rel then Some Dir
            else lookup (fsys s) p)" by simp
  show "previous = None" if "lookup (fsys s) CURRENT_LINK = None"
  proof -
    from that l1[of CURRENT_LINK] ne have "lookup (fsys s1) CURRENT_LINK = None" by simp
    from current_release_absent[OF this] prev show ?thesis by simp
  qed
  have ext: "lookup (fsys s1) a = Some nd" if "lookup (fsys s) a = Some nd" for a nd
    using that fresh l1[of a] by auto
  show "previous = Some q" if "get_current_release (fsys s) = Some q"
    using current_release_extend[of "fsys s" "fsys s1", OF ext that] prev by simp
  show "q \<noteq> CURRENT_LINK \<and> (\<exists>nd. lookup (fsys s') q = Some nd \<and> (\<forall>t. nd \<noteq> Link t))"
    if "previous = Some q"
  proof -
    from that prev have g: "get_current_release (fsys s1) = Some q" by simp
    from current_release_Some[OF g] obtain nd
      where nd: "lookup (fsys s1) q = Some nd" "\<forall>t. nd \<noteq> Link t" by blast
    from current_release_link[OF g] obtain t
      where "lookup (fsys s1) CURRENT_LINK = Some (Link t)" by blast
    with nd have "q \<noteq> CURRENT_LINK" by auto
    with nd l'[of q] show ?thesis by simp
  qed
  from c(2) eq show "tot = (if skip then 9 else 10)" by simp
qed


section \<open>A failed health check\<close>

lemma deploy_unhealthy_unfold:
  assumes "deploy_until_check w env skip s = (Inr (tot, version, previous, False), s1)"
  shows "deploy w env skip s =
           and_then
             (case previous of
                Some prev \<Rightarrow>
                  and_then (fs_calls (repoint_calls prev)) (\<lambda>u.
                  and_then (services_reload w) (\<lambda>u.
                  log_warning (''Rolled back to '' @ path_name prev)))
              | None \<Rightarrow> ret ())
             (\<lambda>u. raise (SystemExit 1))
             (s1\<lparr>log := log s1 @ [(ERROR, ''Health check failed! Rolling back...'')]\<rparr>)"
  using assms
  by (simp add: deploy_def and_then_Inr deploy_finish_def and_then_def[of "log_error _"]
                log_error_def emit_def)

text \<open>
  C4, as amended. On a first deployment (no pointer before) whose health check fails,
  \<^verbatim>\<open>deploy\<close> logs the error \<^verbatim>\<open>Health check failed! Rolling back...\<close> and nothing else,
  runs no further command, leaves the file system as the health check found it, with the
  pointer on the new release, and exits with status 1. It reports no separate
  rollback-unavailable condition.
\<close>

theorem first_deploy_unhealthy:
  assumes "lookup (fsys s) CURRENT_LINK = None"
    and "fst (deploy_until_check w env skip s) = Inr (tot, version, previous, False)"
  shows "previous = None
       \<and> deploy w env skip s =
           (Inl (SystemExit 1),
            (snd (deploy_until_check w env skip s))
              \<lparr>log := log (snd (deploy_until_check w env skip s))
                       @ [(ERROR, ''Health check failed! Rolling back...'')]\<rparr>)
       \<and> exit_code (fst (deploy w env skip s)) = 1
       \<and> version = get_next_version (fsys s)
       \<and> lookup (fsys (snd (deploy w env skip s))) CURRENT_LINK
           = Some (Link (InReleases (''v'' @ str_int version)))
       \<and> lookup (fsys (snd (deploy w env skip s))) (InReleases (''v'' @ str_int version))
           = Some Dir
       \<and> get_current_release (fsys (snd (deploy w env skip s)))
           = Some (InReleases (''v'' @ str_int version))"
proof -
  obtain s1 where u: "deploy_until_check w env skip s = (Inr (tot, version, previous, False), s1)"
    using assms(2) by (cases "deploy_until_check w env skip s") simp
  note c = until_check_Inr[OF u]
  from c(4)[OF assms(1)] have pn: "previous = None" .
  let ?s' = "s1\<lparr>log := log s1 @ [(ERROR, ''Health check failed! Rolling back...'')]\<rparr>"
  from deploy_unhealthy_unfold[OF u] pn
  have d: "deploy w env skip s = (Inl (SystemExit 1), ?s')"
    by (simp add: and_then_def ret_def raise_def)
  have ne: "InReleases (''v'' @ str_int version) \<noteq> CURRENT_LINK"
    by (simp add: CURRENT_LINK_def)
  from c(3)[of CURRENT_LINK]
  have a: "lookup (fsys ?s') CURRENT_LINK = Some (Link (InReleases (''v'' @ str_int version)))"
    by simp
  from c(3)[of "InReleases (''v'' @ str_int version)"] ne
  have b: "lookup (fsys ?s') (InReleases (''v'' @ str_int version)) = Some Dir" by simp
  from a b have g: "get_current_release (fsys ?s') = Some (InReleases (''v'' @ str_int version))"
    by (rule current_release_points) simp
  from pn d c(1) a b g u show ?thesis by simp
qed

theorem first_deploy_unhealthy_witness:
  "lookup (fsys (start fs_none)) CURRENT_LINK = None
   \<and> fst (deploy_until_check world_api_down ''production'' True (start fs_none))
       = Inr (9, 1, None, False)
   \<and> fst (deploy world_api_down ''production'' True (start fs_none)) = Inl (SystemExit 1)
   \<and> get_current_release (fsys (snd (deploy world_api_down ''production'' True (start fs_none))))
       = Some (InReleases ''v1'')"
proof -
  have a: "lookup (fsys (start fs_none)) CURRENT_LINK = None" by code_simp
  have b: "fst (deploy_until_check world_api_down ''production'' True (start fs_none))
       = Inr (9, 1, None, False)" by code_simp
  have c: "str_int 1 = ''1''" by code_simp
  note t = first_deploy_unhealthy[OF a b]
  from t have "deploy world_api_down ''production'' True (start fs_none) =
      (Inl (SystemExit 1),
       (snd (deploy_until_check world_api_down ''production'' True (start fs_none)))
         \<lparr>log := log (snd (deploy_until_check world_api_down ''production'' True (start fs_none)))
                  @ [(ERROR, ''Health check failed! Rolling back...'')]\<rparr>)"
    by blast
  then have d: "fst (deploy world_api_down ''production'' True (start fs_none))
      = Inl (SystemExit 1)" by simp
  from t have "get_current_release
      (fsys (snd (deploy world_api_down ''production'' True (start fs_none))))
      = Some (InReleases (''v'' @ str_int 1))" by blast
  with c have e: "get_current_release
      (fsys (snd (deploy world_api_down ''production'' True (start fs_none))))
      = Some (InReleases ''v1'')" by simp
  from a b d e show ?thesis by blast
qed

text \<open>
  C4 as stated fails on the report: on the first deployment with a failing probe, the
  only warning or error in the whole output announces a rollback.
\<close>

theorem first_deploy_reports_no_unavailable_rollback:
  "fst (deploy world_api_down ''production'' True (start fs_none)) = Inl (SystemExit 1)
   \<and> map snd (filter (\<lambda>e. fst e = ERROR \<or> fst e = WARN)
        (log (snd (deploy world_api_down ''production'' True (start fs_none)))))
       = [''Health check failed! Rolling back...'']
   \<and> last (log (snd (deploy world_api_down ''production'' True (start fs_none))))
       = (ERROR, ''Health check failed! Rolling back...'')"
  by code_simp


section \<open>Rolling back after a failed health check\<close>

lemma fs_calls_repoint:
  assumes "lookup (fsys s) CURRENT_LINK = Some (Link t)"
  shows "fs_calls (repoint_calls target) s =
           (Inr (), s\<lparr>fsys := add_entry ''current'' (Link target)
                                 (remove_entry ''current'' (fsys s))\<rparr>)"
  by (simp add: fs_calls_def repoint_run[OF assms])

lemma reload_service_cmds:
  "\<exists>c. cmds (snd (reload_service w x s)) = cmds s @ SystemctlReload (snd x) # c"
  by (cases x)
     (auto simp: reload_service_def and_then_def run_cmd_def Let_def ret_def log_success_def
                 log_warning_def emit_def)

lemma for_each_reload_cmds:
  "\<exists>c. cmds (snd (for_each (reload_service w) xs s)) = cmds s @ c
       \<and> set (map (\<lambda>x. SystemctlReload (snd x)) xs) \<subseteq> set c"
proof (induction xs arbitrary: s)
  case Nil
  show ?case by simp
next
  case (Cons x xs)
  obtain r s1 where run: "reload_service w x s = (r, s1)" by (cases "reload_service w x s")
  from reload_service_cmds[of w x s] run obtain c1
    where c1: "cmds s1 = cmds s @ SystemctlReload (snd x) # c1" by auto
  show ?case
  proof (cases r)
    case (Inl e)
    with run never_raisesD[OF never_raises_reload_service] show ?thesis by blast
  next
    case (Inr u)
    from Cons[of s1] obtain c2 where
      c2: "cmds (snd (for_each (reload_service w) xs s1)) = cmds s1 @ c2"
          "set (map (\<lambda>x. SystemctlReload (snd x)) xs) \<subseteq> set c2" by blast
    with run Inr c1 show ?thesis by auto
  qed
qed

lemma services_reload_cmds:
  "\<exists>c. cmds (snd (services_reload w s)) = cmds s @ c
       \<and> set (map (\<lambda>x. SystemctlReload (snd x)) SERVICES) \<subseteq> set c"
  using for_each_reload_cmds[of w SERVICES "s\<lparr>log := log s @ [(INFO, ''Reloading all services...'')]\<rparr>"]
  by (simp add: services_reload_def and_then_def log_info_def emit_def)

text \<open>
  C10. When the health check fails and the pointer led to a release \<open>p\<close> before the
  deploy, \<^verbatim>\<open>deploy\<close> exits with status 1 after putting the pointer back on \<open>p\<close> and
  reloading the services. Every entry other than the pointer is as the health check found
  it: the new release directory is still on disk, and compared with the state before the
  deploy nothing but the pointer and the new directory differs, so nothing was pruned.
\<close>

theorem unhealthy_deploy_rolls_back:
  assumes "get_current_release (fsys s) = Some p"
    and "fst (deploy_until_check w env skip s) = Inr (tot, version, previous, False)"
  shows "previous = Some p
       \<and> fst (deploy w env skip s) = Inl (SystemExit 1)
       \<and> lookup (fsys (snd (deploy w env skip s))) CURRENT_LINK = Some (Link p)
       \<and> get_current_release (fsys (snd (deploy w env skip s))) = Some p
       \<and> lookup (fsys s) (InReleases (''v'' @ str_int version)) = None
       \<and> lookup (fsys (snd (deploy w env skip s))) (InReleases (''v'' @ str_int version))
           = Some Dir
       \<and> (\<forall>q. q \<noteq> CURRENT_LINK \<longrightarrow>
              lookup (fsys (snd (deploy w env skip s))) q
                = lookup (fsys (snd (deploy_until_check w env skip s))) q)
       \<and> (\<forall>q. q \<noteq> CURRENT_LINK \<and> q \<noteq> InReleases (''v'' @ str_int version) \<longrightarrow>
              lookup (fsys (snd (deploy w env skip s))) q = lookup (fsys s) q)
       \<and> last (log (snd (deploy w env skip s))) = (WARN, ''Rolled back to '' @ path_name p)
       \<and> (\<exists>c. cmds (snd (deploy w env skip s))
                 = cmds (snd (deploy_until_check w env skip s)) @ c
              \<and> set (map (\<lambda>x. SystemctlReload (snd x)) SERVICES) \<subseteq> set c)"
proof -
  let ?rel = "InReleases (''v'' @ str_int version)"
  obtain s1 where u: "deploy_until_check w env skip s = (Inr (tot, version, previous, False), s1)"
    using assms(2) by (cases "deploy_until_check w env skip s") simp
  note c = until_check_Inr[OF u]
  from c(5)[OF assms(1)] have pv: "previous = Some p" .
  from c(6)[OF pv] obtain nd where pne: "p \<noteq> CURRENT_LINK"
    and nd: "lookup (fsys s1) p = Some nd" "\<forall>t. nd \<noteq> Link t" by blast
  let ?sE = "s1\<lparr>log := log s1 @ [(ERROR, ''Health check failed! Rolling back...'')]\<rparr>"
  let ?fR = "add_entry ''current'' (Link p) (remove_entry ''current'' (fsys s1))"
  let ?sR = "?sE\<lparr>fsys := ?fR\<rparr>"
  from c(3)[of CURRENT_LINK] have lk: "lookup (fsys ?sE) CURRENT_LINK = Some (Link ?rel)" by simp
  from fs_calls_repoint[OF lk, of p] have rp: "fs_calls (repoint_calls p) ?sE = (Inr (), ?sR)"
    by simp
  from lk have lR: "lookup ?fR q = (if q = CURRENT_LINK then Some (Link p) else lookup (fsys s1) q)"
    for q using repointed_lookup[of "fsys s1" ?rel p q] by simp
  obtain sS where rl: "services_reload w ?sR = (Inr (), sS)"
    using services_reload_returns[of w ?sR] by blast
  have fS: "fsys sS = ?fR" using same_fsD[OF same_fs_services_reload rl] by simp
  from services_reload_cmds[of w ?sR] rl obtain cs where
    cs: "cmds sS = cmds s1 @ cs" "set (map (\<lambda>x. SystemctlReload (snd x)) SERVICES) \<subseteq> set cs"
    by auto
  let ?sW = "sS\<lparr>log := log sS @ [(WARN, ''Rolled back to '' @ path_name p)]\<rparr>"
  from deploy_unhealthy_unfold[OF u] pv rp rl
  have d: "deploy w env skip s = (Inl (SystemExit 1), ?sW)"
    by (simp add: and_then_def log_warning_def emit_def raise_def)
  have l': "lookup (fsys ?sW) q = (if q = CURRENT_LINK then Some (Link p) else lookup (fsys s1) q)"
    for q using lR[of q] fS by simp
  from l'[of CURRENT_LINK] have a: "lookup (fsys ?sW) CURRENT_LINK = Some (Link p)" by simp
  from l'[of p] pne nd have b: "lookup (fsys ?sW) p = Some nd" by simp
  from a b nd(2) have g: "get_current_release (fsys ?sW) = Some p"
    by (rule current_release_points)
  have ne: "?rel \<noteq> CURRENT_LINK" by (simp add: CURRENT_LINK_def)
  from l'[of ?rel] c(3)[of ?rel] ne have e: "lookup (fsys ?sW) ?rel = Some Dir" by simp
  have h: "lookup (fsys ?sW) q = lookup (fsys s1) q" if "q \<noteq> CURRENT_LINK" for q
    using l'[of q] that by simp
  have i: "lookup (fsys ?sW) q = lookup (fsys s) q" if "q \<noteq> CURRENT_LINK" "q \<noteq> ?rel" for q
    using h[OF that(1)] c(3)[of q] that by simp
  have j: "last (log ?sW) = (WARN, ''Rolled back to '' @ path_name p)" by simp
  from cs have k: "\<exists>c. cmds ?sW = cmds s1 @ c
      \<and> set (map (\<lambda>x. SystemctlReload (snd x)) SERVICES) \<subseteq> set c" by simp
  from pv a g c(2) e h i j k show ?thesis unfolding d u by simp
qed

theorem unhealthy_deploy_rolls_back_witness:
  "get_current_release (fsys (start fs_ten)) = Some (InReleases ''v7'')
   \<and> fst (deploy_until_check world_api_down ''production'' True (start fs_ten))
       = Inr (9, 11, Some (InReleases ''v7''), False)
   \<and> fst (deploy world_api_down ''production'' True (start fs_ten)) = Inl (SystemExit 1)
   \<and> get_current_release (fsys (snd (deploy world_api_down ''production'' True (start fs_ten))))
       = Some (InReleases ''v7'')
   \<and> lookup (fsys (snd (deploy world_api_down ''production'' True (start fs_ten))))
       (InReleases ''v11'') = Some Dir"
proof -
  have a: "get_current_release (fsys (start fs_ten)) = Some (InReleases ''v7'')" by code_simp
  have b: "fst (deploy_until_check world_api_down ''production'' True (start fs_ten))
       = Inr (9, 11, Some (InReleases ''v7''), False)" by code_simp
  have c: "str_int 11 = ''11''" by code_simp
  note t = unhealthy_deploy_rolls_back[OF a b]
  from t have d: "fst (deploy world_api_down ''production'' True (start fs_ten))
      = Inl (SystemExit 1)" by blast
  from t have e: "get_current_release
      (fsys (snd (deploy world_api_down ''production'' True (start fs_ten))))
      = Some (InReleases ''v7'')" by blast
  from t have "lookup (fsys (snd (deploy world_api_down ''production'' True (start fs_ten))))
      (InReleases (''v'' @ str_int 11)) = Some Dir" by blast
  with c have f: "lookup (fsys (snd (deploy world_api_down ''production'' True (start fs_ten))))
      (InReleases ''v11'') = Some Dir" by simp
  from a b d e f show ?thesis by blast
qed


section \<open>A failing backup\<close>

lemma and_then_log_after:
  assumes "\<And>x. steps_in log_grows (k x)"
  shows "\<exists>l. log (snd (and_then m k s)) = log (snd (m s)) @ l"
proof (cases rule: and_then_cases[of m s k])
  case (raised e s')
  then show ?thesis by simp
next
  case (returned x s')
  from log_growsD[OF assms[of x], of s' "fst (k x s')" "snd (k x s')"]
  obtain l where "log (snd (k x s')) = log s' @ l" by auto
  with returned show ?thesis by simp
qed

lemma deploy_header_returns:
  "\<exists>s'. deploy_header env skip s = (Inr (), s') \<and> fsys s' = fsys s \<and> (\<exists>l. log s' = log s @ l)"
proof (cases "deploy_header env skip s")
  case (Pair r s')
  from log_growsD[OF log_grows_deploy_header Pair] same_fsD[OF same_fs_deploy_header Pair]
  have f: "fsys s' = fsys s" "\<exists>l. log s' = log s @ l" by simp_all
  show ?thesis
  proof (cases r)
    case (Inl e)
    with Pair never_raisesD[OF never_raises_deploy_header] show ?thesis by blast
  next
    case (Inr u)
    with Pair f show ?thesis by simp
  qed
qed

text \<open>What \<^verbatim>\<open>db_backup\<close> does in a configured environment, case by case.\<close>

lemma db_backup_mkdir_raises:
  assumes "map_of ENVIRONMENTS env = Some config" and "backups_mkdir w = Some e"
  shows "db_backup w env t = (Inl e, t)"
  using assms(2)
  by (simp add: db_backup_def get_env_config_valid[OF assms(1)] and_then_def mkdir_backups_def)

lemma db_backup_reading_raises:
  assumes "map_of ENVIRONMENTS env = Some config" and "backups_mkdir w = None"
    and "database_url w config = Inl e"
  shows "db_backup w env t = (Inl e, t\<lparr>backups_dir := True\<rparr>)"
  using assms(2,3)
  by (simp add: db_backup_def get_env_config_valid[OF assms(1)] and_then_def mkdir_backups_def lift_def)

lemma db_backup_read:
  assumes "map_of ENVIRONMENTS env = Some config" and "backups_mkdir w = None"
    and "database_url w config = Inr db_url"
  shows "db_backup w env t =
      (case db_url of
         None \<Rightarrow> log_warning ''Could not find DATABASE_URL, skipping backup''
       | Some url \<Rightarrow>
           if url = [] then log_warning ''Could not find DATABASE_URL, skipping backup''
           else
             (case match_url w url of
                Some (user, password, host, port, db_name) \<Rightarrow>
                  and_then (setenv ''PGPASSWORD'' password) (\<lambda>u.
                  and_then (log_info (''Backing up database '' @ db_name @ ''...'')) (\<lambda>u.
                  and_then (run_cmd w (PgDump host port user db_name (backup_file w env)) False
                              ProjectRoot) (\<lambda>rc.
                  if rc = 0 then log_success (''Backup saved to '' @ backup_file w env)
                  else log_warning ''Database backup failed'')))
              | None \<Rightarrow>
                  log_warning (''Could not parse DATABASE_URL: '' @ take 20 url @ ''...'')))
        (t\<lparr>backups_dir := True\<rparr>)"
  using assms(2,3)
  by (simp add: db_backup_def get_env_config_valid[OF assms(1)] and_then_def mkdir_backups_def lift_def)

lemma db_backup_no_url:
  assumes "map_of ENVIRONMENTS env = Some config" and "backups_mkdir w = None"
    and "database_url w config = Inr None \<or> database_url w config = Inr (Some [])"
  shows "db_backup w env t =
           (Inr (), t\<lparr>backups_dir := True,
                       log := log t @ [(WARN, ''Could not find DATABASE_URL, skipping backup'')]\<rparr>)"
  using assms(3) db_backup_read[OF assms(1,2), of None t] db_backup_read[OF assms(1,2), of "Some []" t]
  by (auto simp: log_warning_def emit_def)

lemma db_backup_unparsable:
  assumes "map_of ENVIRONMENTS env = Some config" and "backups_mkdir w = None"
    and "database_url w config = Inr (Some url)" and "url \<noteq> []" and "match_url w url = None"
  shows "db_backup w env t =
           (Inr (), t\<lparr>backups_dir := True,
                       log := log t @ [(WARN, ''Could not parse DATABASE_URL: '' @ take 20 url
                                               @ ''...'')]\<rparr>)"
  using assms(4,5) db_backup_read[OF assms(1,2,3), of t]
  by (simp add: log_warning_def emit_def)

lemma db_backup_line_fails:
  assumes "map_of ENVIRONMENTS env = Some config" and "backups_mkdir w = None"
    and "database_url w config = Inr (Some url)" and "url \<noteq> []"
    and "match_url w url = Some (user, password, host, port, db_name)"
    and "CHR 0x00 \<notin> set password"
    and "exit_status w (cmds t) (PgDump host port user db_name (backup_file w env)) Gzip \<noteq> 0"
  shows "db_backup w env t =
           (Inr (), t\<lparr>backups_dir := True,
                       environ := (environ t)(''PGPASSWORD'' \<mapsto> password),
                       cmds := cmds t @ [PgDump host port user db_name (backup_file w env)],
                       log := log t @ [(INFO, ''Backing up database '' @ db_name @ ''...''),
                                       (WARN, ''Database backup failed'')]\<rparr>)"
  using assms(4,5,6,7) db_backup_read[OF assms(1,2,3), of t]
  by (simp add: log_warning_def log_info_def emit_def and_then_def setenv_def run_cmd_def
                returncode_def Let_def)

text \<open>The state in which \<^verbatim>\<open>deploy\<close> calls \<^verbatim>\<open>db_backup\<close>, and what follows the call.\<close>

lemma at_backup_header:
  assumes "deploy_header env False s = (Inr (), s2)"
  shows "log_step 1 10 ''Creating database backup...'' s2 = (Inr (), at_backup env s)"
  by (simp add: at_backup_def and_then_Inr[where m="deploy_header env False" and s=s, OF assms]
                log_step_def emit_def)

lemma fsys_at_backup: "fsys (at_backup env s) = fsys s"
proof -
  from deploy_header_returns[of env False s] obtain s2 where
    hd: "deploy_header env False s = (Inr (), s2)" and f2: "fsys s2 = fsys s" by blast
  have "steps_in same_fs (log_step 1 10 ''Creating database backup...'')"
    unfolding log_step_def by (rule same_fs_emit)
  from same_fsD[OF this at_backup_header[OF hd]] f2 show ?thesis by simp
qed

lemma prepare_with_backup:
  assumes "map_of ENVIRONMENTS env = Some config"
  shows "deploy_prepare w env False s =
           and_then (db_backup w env) (\<lambda>u.
           and_then (deploy_create_release 1 10) (\<lambda>created. ret (config, 10, created)))
             (at_backup env s)"
proof -
  from deploy_header_returns[of env False s] obtain s2 where
    hd: "deploy_header env False s = (Inr (), s2)" by blast
  have bk: "deploy_backup w env False 0 10 s2 =
      and_then (db_backup w env) (\<lambda>u. ret (1 :: nat)) (at_backup env s)"
    by (simp add: deploy_backup_def
                  and_then_Inr[where m="log_step (Suc 0) 10 ''Creating database backup...''"
                    and s=s2, OF at_backup_header[OF hd, simplified]])
  show ?thesis
  proof (cases rule: and_then_cases[of "db_backup w env" "at_backup env s"
      "\<lambda>u. ret (1 :: nat)"])
    case (raised e sb)
    with bk have "deploy_backup w env False 0 10 s2 = (Inl e, sb)" by simp
    with raised(1) hd show ?thesis
      by (simp add: deploy_prepare_def
            and_then_Inr[where m="get_env_config env", OF get_env_config_valid[OF assms]]
            and_then_Inr[where m="deploy_header env False" and s=s]
            and_then_Inl[where m="deploy_backup w env False 0 10" and s=s2]
            and_then_Inl[where m="db_backup w env" and s="at_backup env s"])
  next
    case (returned u sb)
    with bk have "deploy_backup w env False 0 10 s2 = (Inr 1, sb)" by (simp add: ret_def)
    with returned(1) hd show ?thesis
      by (simp add: deploy_prepare_def
            and_then_Inr[where m="get_env_config env", OF get_env_config_valid[OF assms]]
            and_then_Inr[where m="deploy_header env False" and s=s]
            and_then_Inr[where m="deploy_backup w env False 0 10" and s=s2]
            and_then_Inr[where m="db_backup w env" and s="at_backup env s"])
  qed
qed

lemma deploy_backup_raised:
  assumes "map_of ENVIRONMENTS env = Some config"
    and "db_backup w env (at_backup env s) = (Inl e, sb)"
  shows "deploy w env False s = (Inl e, sb)"
proof -
  from prepare_with_backup[OF assms(1), of w s] assms(2)
  have "deploy_prepare w env False s = (Inl e, sb)"
    by (simp add: and_then_Inl[where m="db_backup w env" and s="at_backup env s"])
  then have "deploy_until_check w env False s = (Inl e, sb)"
    by (simp add: deploy_until_check_def
                  and_then_Inl[where m="deploy_prepare w env False" and s=s])
  then show ?thesis
    by (simp add: deploy_def and_then_Inl[where m="deploy_until_check w env False" and s=s])
qed

lemma log_grows_activate_and_check [log_grows_intros]:
  "steps_in log_grows (deploy_activate_and_check w release step total_steps)"
  unfolding deploy_activate_and_check_def log_step_def by (intro log_grows_intros)

lemma log_grows_after_prepare:
  "steps_in log_grows
     (case pp of (config, total_steps, step, version, release) \<Rightarrow>
        and_then (deploy_provision w config release step total_steps) (\<lambda>step.
        and_then (deploy_activate_and_check w release step total_steps) (\<lambda>r.
        ret (total_steps, version, r))))"
  by (cases pp) (auto intro!: log_grows_intros)

lemma log_grows_finish_of:
  "steps_in log_grows
     (case r of (total_steps, version, previous_release, healthy) \<Rightarrow>
        deploy_finish w version previous_release healthy total_steps)"
  by (cases r) (simp add: log_grows_deploy_finish)

lemma deploy_log_after_prepare:
  "\<exists>l. log (snd (deploy w env skip s)) = log (snd (deploy_prepare w env skip s)) @ l"
proof -
  have "\<exists>l. log (snd (deploy_until_check w env skip s))
      = log (snd (deploy_prepare w env skip s)) @ l"
    unfolding deploy_until_check_def by (rule and_then_log_after) (rule log_grows_after_prepare)
  moreover have "\<exists>l. log (snd (deploy w env skip s))
      = log (snd (deploy_until_check w env skip s)) @ l"
    unfolding deploy_def by (rule and_then_log_after) (rule log_grows_finish_of)
  ultimately show ?thesis by auto
qed

lemma provision_logs:
  "\<exists>l. log (snd (deploy_provision w config release step total_steps s)) =
         log s @ (STEP (step + 1) total_steps, ''Copying code from git...'') # l"
proof -
  let ?s0 = "s\<lparr>log := log s @ [(STEP (step + 1) total_steps, ''Copying code from git...'')]\<rparr>"
  let ?k = "\<lambda>u :: unit.
     and_then (run_cmd w (GitArchive release) True ProjectRoot) (\<lambda>r.
     and_then (log_step (step + 2) total_steps ''Installing dependencies...'') (\<lambda>u.
     and_then (run_cmd w (PipInstall release) True (ReleaseDir release)) (\<lambda>r.
     and_then (log_step (step + 3) total_steps ''Running migrations...'') (\<lambda>u.
     and_then (setenv ''DJANGO_SETTINGS_MODULE'' (django_settings config)) (\<lambda>u.
     and_then (run_cmd w (ManageMigrate release) True (ReleaseWeb release)) (\<lambda>r.
     and_then (log_step (step + 4) total_steps ''Collecting static files...'') (\<lambda>u.
     and_then (run_cmd w (ManageCollectstatic release) True (ReleaseWeb release)) (\<lambda>r.
     ret (step + 4)))))))))"
  have st: "log_step (step + 1) total_steps ''Copying code from git...'' s = (Inr (), ?s0)"
    by (simp add: log_step_def emit_def)
  have "steps_in log_grows (?k ())" unfolding log_step_def by (intro log_grows_intros)
  from log_growsD[OF this, of ?s0 "fst (?k () ?s0)" "snd (?k () ?s0)"]
  obtain l where "log (snd (?k () ?s0)) = log ?s0 @ l" by auto
  moreover have "deploy_provision w config release step total_steps s = ?k () ?s0"
    unfolding deploy_provision_def
    by (rule and_then_Inr[where m="log_step (step + 1) total_steps ''Copying code from git...''",
          OF st])
  ultimately show ?thesis by simp
qed

text \<open>
  After a backup that returned, \<^verbatim>\<open>deploy\<close> goes on with step 2, and when the release
  directory is created, with step 3.
\<close>

lemma deploy_backup_returned:
  assumes "map_of ENVIRONMENTS env = Some config"
    and "db_backup w env (at_backup env s) = (Inr u, sb)"
  shows "\<exists>l. log (snd (deploy w env False s)) =
           log sb @ (STEP 2 10, ''Creating release v'' @ str_int (get_next_version (fsys s))) # l"
    and "deploy_create_release 1 10 sb = (Inr x, s2) \<Longrightarrow>
         \<exists>l. log (snd (deploy w env False s)) =
           log s2 @ (STEP 3 10, ''Copying code from git...'') # l"
proof -
  let ?k = "\<lambda>created. ret (config, 10 :: nat, created :: nat \<times> int \<times> string)"
  from prepare_with_backup[OF assms(1), of w s] assms(2)
  have pre: "deploy_prepare w env False s = and_then (deploy_create_release 1 10) ?k sb"
    by (simp add: and_then_Inr[where m="db_backup w env" and s="at_backup env s"])
  have fb: "fsys sb = fsys s"
    using same_fsD[OF same_fs_db_backup assms(2)] fsys_at_backup[of env s] by simp
  from deploy_log_after_prepare[of w env False s] obtain ld where
    ld: "log (snd (deploy w env False s)) = log (snd (deploy_prepare w env False s)) @ ld"
    by blast
  show "\<exists>l. log (snd (deploy w env False s)) =
           log sb @ (STEP 2 10, ''Creating release v'' @ str_int (get_next_version (fsys s))) # l"
  proof -
    have "\<exists>l. log (snd (and_then (deploy_create_release 1 10) ?k sb))
        = log (snd (deploy_create_release 1 10 sb)) @ l"
      by (rule and_then_log_after) (rule log_grows_ret)
    then obtain lp where lp: "log (snd (deploy_prepare w env False s))
        = log (snd (deploy_create_release 1 10 sb)) @ lp" unfolding pre by blast
    from create_release_logs[of 1 10 sb] fb obtain lc where
      "log (snd (deploy_create_release 1 10 sb)) =
         log sb @ (STEP 2 10, ''Creating release v'' @ str_int (get_next_version (fsys s))) # lc"
      by auto
    with lp ld show ?thesis by simp
  qed
  show "\<exists>l. log (snd (deploy w env False s)) =
           log s2 @ (STEP 3 10, ''Copying code from git...'') # l"
    if cr: "deploy_create_release 1 10 sb = (Inr x, s2)"
  proof -
    from create_release_Inr(1)[OF cr] obtain version release
      where x: "x = (2, version, release)" by simp
    have "and_then (deploy_create_release 1 10) ?k sb = ?k x s2"
      by (rule and_then_Inr[where m="deploy_create_release 1 10" and s=sb, OF cr])
    with pre x
    have p2: "deploy_prepare w env False s = (Inr (config, 10, 2, version, release), s2)"
      by (simp add: ret_def)
    let ?rest = "\<lambda>step. and_then
        (deploy_activate_and_check w release step 10) (\<lambda>r. ret (10 :: nat, version, r))"
    have "deploy_until_check w env False s =
        and_then (deploy_provision w config release 2 10) ?rest s2"
      by (simp add: deploy_until_check_def
                    and_then_Inr[where m="deploy_prepare w env False" and s=s, OF p2])
    moreover have "\<exists>l. log (snd (and_then (deploy_provision w config release 2 10)
        ?rest s2)) = log (snd (deploy_provision w config release 2 10 s2)) @ l"
      by (rule and_then_log_after) (intro log_grows_intros)
    ultimately obtain lu where lu: "log (snd (deploy_until_check w env False s))
        = log (snd (deploy_provision w config release 2 10 s2)) @ lu" by auto
    have "\<exists>l. log (snd (deploy w env False s))
        = log (snd (deploy_until_check w env False s)) @ l"
      unfolding deploy_def by (rule and_then_log_after) (rule log_grows_finish_of)
    then obtain lf where lf: "log (snd (deploy w env False s))
        = log (snd (deploy_until_check w env False s)) @ lf" by blast
    from provision_logs[of w config release 2 10 s2] obtain lp where
      "log (snd (deploy_provision w config release 2 10 s2)) =
         log s2 @ (STEP 3 10, ''Copying code from git...'') # lp" by auto
    with lu lf show ?thesis by simp
  qed
qed


text \<open>
  C8, as amended. In a configured environment, when \<^verbatim>\<open>BACKUPS_DIR\<close> can be created and the
  environment file can be read, each of these makes \<^verbatim>\<open>db_backup\<close> log a warning as its
  last entry and return normally, the file system untouched: a database URL that is
  missing or empty, one that does not parse, and a dump line that returns a non-zero
  status (the status of \<^verbatim>\<open>gzip\<close> with its redirection, the last program of the line).
  When \<^verbatim>\<open>db_backup\<close> returns, \<^verbatim>\<open>deploy\<close> goes on: the next entry of its log is
  \<^verbatim>\<open>[2/10] Creating release v<N>\<close> for the next version \<open>N\<close>, and once that directory is
  created, \<^verbatim>\<open>[3/10] Copying code from git...\<close>. An exception raised inside \<^verbatim>\<open>db_backup\<close>
  is not caught: \<^verbatim>\<open>BACKUPS_DIR.mkdir\<close> and the reading of the environment file raise
  through \<^verbatim>\<open>db_backup\<close>, and \<^verbatim>\<open>deploy\<close> ends at step 1 with whatever \<^verbatim>\<open>db_backup\<close> raised.
\<close>

theorem backup_failure_not_fatal:
  assumes "map_of ENVIRONMENTS env = Some config"
  shows "(backups_mkdir w = None
          \<and> (database_url w config = Inr None \<or> database_url w config = Inr (Some [])) \<longrightarrow>
            db_backup w env t =
              (Inr (), t\<lparr>backups_dir := True,
                          log := log t @ [(WARN, ''Could not find DATABASE_URL, skipping backup'')]\<rparr>))
       \<and> (\<forall>url. backups_mkdir w = None \<and> database_url w config = Inr (Some url) \<and> url \<noteq> []
                 \<and> match_url w url = None \<longrightarrow>
            db_backup w env t =
              (Inr (), t\<lparr>backups_dir := True,
                          log := log t @ [(WARN, ''Could not parse DATABASE_URL: '' @ take 20 url
                                                  @ ''...'')]\<rparr>))
       \<and> (\<forall>url user password host port db_name.
            backups_mkdir w = None \<and> database_url w config = Inr (Some url) \<and> url \<noteq> []
            \<and> match_url w url = Some (user, password, host, port, db_name)
            \<and> CHR 0x00 \<notin> set password
            \<and> exit_status w (cmds t) (PgDump host port user db_name (backup_file w env)) Gzip
                \<noteq> 0 \<longrightarrow>
            db_backup w env t =
              (Inr (), t\<lparr>backups_dir := True,
                          environ := (environ t)(''PGPASSWORD'' \<mapsto> password),
                          cmds := cmds t @ [PgDump host port user db_name (backup_file w env)],
                          log := log t @ [(INFO, ''Backing up database '' @ db_name @ ''...''),
                                          (WARN, ''Database backup failed'')]\<rparr>))
       \<and> (\<forall>sb. db_backup w env (at_backup env s) = (Inr (), sb) \<longrightarrow>
            (\<exists>l. log (snd (deploy w env False s)) =
                   log sb @ (STEP 2 10, ''Creating release v''
                                        @ str_int (get_next_version (fsys s))) # l)
            \<and> (\<forall>x s2. deploy_create_release 1 10 sb = (Inr x, s2) \<longrightarrow>
                 (\<exists>l. log (snd (deploy w env False s)) =
                        log s2 @ (STEP 3 10, ''Copying code from git...'') # l)))
       \<and> (\<forall>e. backups_mkdir w = Some e \<longrightarrow> db_backup w env t = (Inl e, t))
       \<and> (\<forall>e. backups_mkdir w = None \<and> database_url w config = Inl e \<longrightarrow>
            db_backup w env t = (Inl e, t\<lparr>backups_dir := True\<rparr>))
       \<and> (\<forall>e sb. db_backup w env (at_backup env s) = (Inl e, sb) \<longrightarrow>
            deploy w env False s = (Inl e, sb))"
proof -
  note a = db_backup_no_url[OF assms, of w t]
  note b = db_backup_unparsable[OF assms, of w _ t]
  note c = db_backup_line_fails[OF assms, of w _ _ _ _ _ _ t]
  note d = deploy_backup_returned[OF assms, of w s]
  note e = db_backup_mkdir_raises[OF assms, of w _ t]
  note f = db_backup_reading_raises[OF assms, of w _ t]
  note g = deploy_backup_raised[OF assms, of w s]
  from a b c d e f g show ?thesis by blast
qed

theorem backup_failure_not_fatal_witness:
  "map_of ENVIRONMENTS ''production'' =
     Some \<lparr>django_settings = ''config.settings.production'', env_file = ''.env.production'',
           services = [PROJECT_NAME @ ''-web'', PROJECT_NAME @ ''-api'',
                       PROJECT_NAME @ ''-celery'', PROJECT_NAME @ ''-beat'']\<rparr>
   \<and> exit_status world_dump_line_fails (cmds (at_backup ''production'' (start fs_none)))
        (PgDump ''db'' ''5432'' ''app'' ''shop''
           (backup_file world_dump_line_fails ''production'')) Gzip = 1
   \<and> fst (db_backup world_dump_line_fails ''production''
             (at_backup ''production'' (start fs_none))) = Inr ()
   \<and> last (log (snd (db_backup world_dump_line_fails ''production''
                       (at_backup ''production'' (start fs_none)))))
       = (WARN, ''Database backup failed'')
   \<and> (\<exists>l1 l2. log (snd (deploy world_dump_line_fails ''production'' False (start fs_none)))
        = l1 @ [(WARN, ''Database backup failed''), (STEP 2 10, ''Creating release v1''),
                (STEP 3 10, ''Copying code from git...'')] @ l2)"
proof -
  let ?w = "world_dump_line_fails"
  let ?t = "at_backup ''production'' (start fs_none)"
  let ?config = "\<lparr>django_settings = ''config.settings.production'',
      env_file = ''.env.production'',
      services = [PROJECT_NAME @ ''-web'', PROJECT_NAME @ ''-api'',
                  PROJECT_NAME @ ''-celery'', PROJECT_NAME @ ''-beat'']\<rparr>"
  let ?dump = "PgDump ''db'' ''5432'' ''app'' ''shop'' (backup_file ?w ''production'')"
  let ?sb = "?t\<lparr>backups_dir := True,
      environ := (environ ?t)(''PGPASSWORD'' \<mapsto> ''pw''),
      cmds := cmds ?t @ [?dump],
      log := log ?t @ [(INFO, ''Backing up database '' @ ''shop'' @ ''...''),
                      (WARN, ''Database backup failed'')]\<rparr>"
  have cfg: "map_of ENVIRONMENTS ''production'' = Some ?config"
    by (simp add: ENVIRONMENTS_def)
  have mk: "backups_mkdir ?w = None" by code_simp
  have url: "database_url ?w ?config = Inr (Some ''postgres://app:pw@db:5432/shop'')"
    by code_simp
  have ne: "''postgres://app:pw@db:5432/shop'' \<noteq> []" by simp
  have mt: "match_url ?w ''postgres://app:pw@db:5432/shop''
      = Some (''app'', ''pw'', ''db'', ''5432'', ''shop'')" by code_simp
  have pw: "CHR 0x00 \<notin> set ''pw''" by simp
  have st: "exit_status ?w (cmds ?t) ?dump Gzip = 1" by code_simp
  then have st0: "exit_status ?w (cmds ?t) ?dump Gzip \<noteq> 0" by simp
  note t = backup_failure_not_fatal[OF cfg, where w="?w" and t="?t" and s="start fs_none"]
  from t mk url ne mt pw st0 have run: "db_backup ?w ''production'' ?t = (Inr (), ?sb)"
    by blast
  then have r1: "fst (db_backup ?w ''production'' ?t) = Inr ()"
    and r2: "last (log (snd (db_backup ?w ''production'' ?t)))
        = (WARN, ''Database backup failed'')" by simp_all
  have cr: "fst (deploy_create_release 1 10 ?sb) = Inr (2, 1, ''v1'')" by code_simp
  have v: "str_int (get_next_version (fsys (start fs_none))) = ''1''" by code_simp
  obtain s2 where cr2: "deploy_create_release 1 10 ?sb = (Inr (2, 1, ''v1''), s2)"
    using cr by (cases "deploy_create_release 1 10 ?sb") simp
  from create_release_unfold[of 1 10 ?sb] cr2 obtain lb where
    l2: "log s2 = lb @ [(WARN, ''Database backup failed''),
                        (STEP 2 10, ''Creating release v'' @ str_int (get_next_version (fsys ?sb)))]"
    by (auto split: sum.splits)
  have "fsys ?sb = fsys (start fs_none)" by (simp add: fsys_at_backup)
  with l2 v have l2': "log s2 = lb @ [(WARN, ''Database backup failed''),
                        (STEP 2 10, ''Creating release v1'')]" by simp
  from t run cr2 obtain l where
    "log (snd (deploy ?w ''production'' False (start fs_none)))
       = log s2 @ (STEP 3 10, ''Copying code from git...'') # l" by blast
  with l2' have "log (snd (deploy ?w ''production'' False (start fs_none)))
       = lb @ [(WARN, ''Database backup failed''), (STEP 2 10, ''Creating release v1''),
               (STEP 3 10, ''Copying code from git...'')] @ l" by simp
  then have r3: "\<exists>l1 l2. log (snd (deploy ?w ''production'' False (start fs_none)))
        = l1 @ [(WARN, ''Database backup failed''), (STEP 2 10, ''Creating release v1''),
                (STEP 3 10, ''Copying code from git...'')] @ l2" by blast
  from cfg st r1 r2 r3 show ?thesis by blast
qed

text \<open>
  C8 as stated fails when the environment file is there and cannot be read: \<^verbatim>\<open>open\<close>
  raises inside \<^verbatim>\<open>db_backup\<close>, no warning is logged, and a deploy with a backup ends at
  step 1 with exit status 1, before any release directory is created or command run.
\<close>

theorem unreadable_env_file_aborts_deploy:
  "fst (db_backup world_env_unreadable ''production'' (start fs_none)) = Inl PermissionError
   \<and> fst (deploy world_env_unreadable ''production'' False (start fs_none))
       = Inl PermissionError
   \<and> exit_code (fst (deploy world_env_unreadable ''production'' False (start fs_none))) = 1
   \<and> last (log (snd (deploy world_env_unreadable ''production'' False (start fs_none))))
       = (STEP 1 10, ''Creating database backup...'')
   \<and> filter (\<lambda>e. fst e = WARN)
        (log (snd (deploy world_env_unreadable ''production'' False (start fs_none)))) = []
   \<and> cmds (snd (deploy world_env_unreadable ''production'' False (start fs_none))) = []
   \<and> releases (fsys (snd (deploy world_env_unreadable ''production'' False (start fs_none))))
       = releases fs_none"
  by code_simp

text \<open>
  The status of the dump line is that of \<^verbatim>\<open>gzip\<close>. When \<^verbatim>\<open>pg_dump\<close> fails and \<^verbatim>\<open>gzip\<close>
  compresses what it was given, the line returns 0 and \<^verbatim>\<open>db_backup\<close> reports a saved
  backup, without a warning.
\<close>

lemma failed_pg_dump_reported_as_saved:
  "exit_status world_pg_dump_fails []
      (PgDump ''db'' ''5432'' ''app'' ''shop'' (backup_file world_pg_dump_fails ''production''))
      Pg_dump = 1
   \<and> fst (db_backup world_pg_dump_fails ''production'' (start fs_none)) = Inr ()
   \<and> cmds (snd (db_backup world_pg_dump_fails ''production'' (start fs_none)))
       = [PgDump ''db'' ''5432'' ''app'' ''shop''
            (backup_file world_pg_dump_fails ''production'')]
   \<and> log (snd (db_backup world_pg_dump_fails ''production'' (start fs_none)))
       = [(INFO, ''Backing up database shop...''),
          (OK, ''Backup saved to '' @ backup_file world_pg_dump_fails ''production'')]"
  by code_simp


section \<open>Rollback when every name parses\<close>

lemma sort_keys_Inr:
  "sort_keys ns = Inr r \<Longrightarrow> map snd r = ns \<and> (\<forall>x \<in> set r. py_int (drop 1 (snd x)) = Some (fst x))"
proof (induction ns arbitrary: r)
  case Nil
  then show ?case by simp
next
  case (Cons n ns)
  then show ?case by (auto split: option.splits sum.splits)
qed

lemma sort_keys_Inl: "sort_keys ns = Inl e \<Longrightarrow> e = ValueError"
  by (induction ns) (auto split: option.splits sum.splits)

lemma sort_key_head_least:
  assumes "sort_key f xs = y # ys" "x \<in> set xs"
  shows "f y \<le> f x"
proof -
  have "sorted (map f (sort_key f xs))" by (rule sorted_sort_key)
  with assms(1) have "\<forall>z \<in> set ys. f y \<le> f z" by simp
  moreover from assms have "x \<in> set (y # ys)" by (metis set_sort)
  ultimately show ?thesis by auto
qed

text \<open>
  What \<^verbatim>\<open>rollback\<close> does on other inputs. Without a current release, or without another
  directory whose name starts with \<^verbatim>\<open>v\<close>, \<^verbatim>\<open>rollback\<close> exits with status 1 and leaves
  the file system alone. When every such directory has a name that parses, it puts the
  pointer on one with the largest version among them and returns.
\<close>

lemma rollback_without_current:
  assumes "get_current_release (fsys s) = None"
  shows "fst (rollback w s) = Inl (SystemExit 1)" and "fsys (snd (rollback w s)) = fsys s"
  using assms
  by (simp_all add: rollback_def and_then_def log_info_def log_error_def emit_def raise_def)

lemma rollback_without_other:
  assumes "get_current_release (fsys s) = Some current"
    and "rollback_candidates (fsys s) current = []"
  shows "fst (rollback w s) = Inl (SystemExit 1)" and "fsys (snd (rollback w s)) = fsys s"
  using assms
  by (simp_all add: rollback_def and_then_def log_info_def log_error_def emit_def raise_def
                    sorted_candidates_def)

lemma rollback_repoints:
  assumes "get_current_release (fsys s) = Some current"
    and "sort_keys (rollback_candidates (fsys s) current) = Inr keyed"
    and "keyed \<noteq> []"
  shows "\<exists>v previous. (v, previous) \<in> set keyed
           \<and> previous \<in> set (rollback_candidates (fsys s) current)
           \<and> (\<forall>x \<in> set keyed. fst x \<le> v)
           \<and> fst (rollback w s) = Inr ()
           \<and> lookup (fsys (snd (rollback w s))) CURRENT_LINK = Some (Link (InReleases previous))
           \<and> (\<forall>q. q \<noteq> CURRENT_LINK \<longrightarrow>
                  lookup (fsys (snd (rollback w s))) q = lookup (fsys s) q)"
proof -
  let ?sorted = "sort_key (\<lambda>x. - fst x) keyed"
  from assms(3) have "?sorted \<noteq> []" by (metis set_empty set_sort)
  then obtain y ys where srt: "?sorted = y # ys" by (cases ?sorted) auto
  then have yin: "y \<in> set keyed" by (metis list.set_intros(1) set_sort)
  have top: "fst x \<le> fst y" if "x \<in> set keyed" for x
    using sort_key_head_least[OF srt that] by simp
  from sort_keys_Inr[OF assms(2)] yin
  have cand: "snd y \<in> set (rollback_candidates (fsys s) current)"
    by (metis image_eqI set_map)
  from srt assms(2) have sc: "sorted_candidates (rollback_candidates (fsys s) current)
      = Inr (snd y # map snd ys)"
    by (simp add: sorted_candidates_def)
  let ?s0 = "s\<lparr>log := log s @ [(INFO, ''Rolling back to previous release...''),
      (INFO, ''Rolling back: '' @ path_name current @ '' -> '' @ snd y)]\<rparr>"
  from current_release_link[OF assms(1)] obtain t
    where lk: "lookup (fsys ?s0) CURRENT_LINK = Some (Link t)" by auto
  let ?sR = "?s0\<lparr>fsys := add_entry ''current'' (Link (InReleases (snd y)))
                          (remove_entry ''current'' (fsys s))\<rparr>"
  from fs_calls_repoint[OF lk, of "InReleases (snd y)"]
  have rp: "fs_calls (repoint_calls (InReleases (snd y))) ?s0 = (Inr (), ?sR)" by simp
  obtain sS where rl: "services_reload w ?sR = (Inr (), sS)"
    using services_reload_returns[of w ?sR] by blast
  have fS: "fsys sS = fsys ?sR" using same_fsD[OF same_fs_services_reload rl] .
  from assms(1) sc rp rl
  have r: "rollback w s = (Inr (), sS\<lparr>log := log sS @ [(OK, ''Rolled back to '' @ snd y)]\<rparr>)"
    by (simp add: rollback_def and_then_def log_info_def log_success_def emit_def)
  from lk have look: "lookup (fsys ?sR) q =
      (if q = CURRENT_LINK then Some (Link (InReleases (snd y))) else lookup (fsys s) q)" for q
    using repointed_lookup[of "fsys s" t "InReleases (snd y)" q] by simp
  have "(fst y, snd y) \<in> set keyed" using yin by simp
  moreover note cand
  moreover have "\<forall>x \<in> set keyed. fst x \<le> fst y" using top by blast
  moreover have "fst (rollback w s) = Inr ()" using r by simp
  moreover have "lookup (fsys (snd (rollback w s))) CURRENT_LINK
      = Some (Link (InReleases (snd y)))" using r fS look[of CURRENT_LINK] by simp
  moreover have "\<forall>q. q \<noteq> CURRENT_LINK \<longrightarrow>
      lookup (fsys (snd (rollback w s))) q = lookup (fsys s) q"
    using r fS look by simp
  ultimately show ?thesis by blast
qed


text \<open>
  With \<^verbatim>\<open>v1\<close> as the only release and the pointer on it, \<^verbatim>\<open>rollback\<close> logs that there is
  nothing to roll back to, exits with status 1 and leaves the releases directory as it is.
\<close>

lemma rollback_single_release:
  "fst (rollback w (start fs_one)) = Inl (SystemExit 1)
   \<and> exit_code (fst (rollback w (start fs_one))) = 1
   \<and> releases (fsys (snd (rollback w (start fs_one)))) = releases fs_one
   \<and> log (snd (rollback w (start fs_one))) =
       [(INFO, ''Rolling back to previous release...''),
        (ERROR, ''No previous release to roll back to'')]"
  by code_simp

end
